theory Spec2Isabelle
  imports Main "HOL-Library.Multiset" "HOL-Library.Code_Target_Numeral"
begin

section \<open>Coordinates, points, bounds\<close>

text \<open>
  The quadtree is generic over \<^verbatim>\<open>T math.Number\<close>. The development fixes the
  instance \<^verbatim>\<open>T = int\<close> on a 64-bit platform. A value of \<^verbatim>\<open>T\<close> is an integer in
  \<open>[-2^63, 2^63)\<close>; every sum, difference and product of the source is followed by
  \<open>wrap\<close>, the two's complement wrap-around of Go's integer arithmetic.
  \<^verbatim>\<open>PointOf[T]\<close> is \<^verbatim>\<open>[2]T\<close>: the pair's first component is index 0 (x), the second is
  index 1 (y).
\<close>

type_synonym point = "int \<times> int"

definition wrap :: "int \<Rightarrow> int" where
  "wrap x = (x + 2 ^ 63) mod 2 ^ 64 - 2 ^ 63"

record BoundOf =
  Min_b :: point
  Max_b :: point

text \<open>\<^verbatim>\<open>math.MaxOf[int]()\<close> on a 64-bit platform: \<^verbatim>\<open>math.MaxInt\<close>.\<close>

definition MaxOf :: int where
  "MaxOf = 2 ^ 63 - 1"

text \<open>
  \<^verbatim>\<open>x / 2.0\<close> at \<^verbatim>\<open>T = int\<close> is Go's integer quotient, which truncates toward zero.
\<close>

definition half :: "int \<Rightarrow> int" where
  "half x = (if x < 0 then - ((- x) div 2) else x div 2)"

text \<open>
  \<^verbatim>\<open>math.Sqrt\<close> is \<^verbatim>\<open>T(math.Sqrt(float64(num)))\<close>, three steps on a non-negative
  argument.
  \<^item> \<open>round53\<close>: the conversion to \<^verbatim>\<open>float64\<close> keeps 53 significant bits, rounding to
    nearest, ties to even; below \<open>2^53\<close> it is exact.
  \<^item> The square root of that value \<open>y\<close> is correctly rounded. With \<open>s\<close> the integer square
    root of \<open>y\<close>, the exact root lies in \<open>[s, s + 1)\<close>. It rounds up to \<open>s + 1\<close> exactly when
    it lies above the midpoint \<open>s + 1 - 2^(E - 53)\<close> between \<open>s + 1\<close> and the float before
    it, where \<open>E\<close> is the binary exponent of \<open>s\<close>; \<open>rounds_up\<close> is that comparison, squared
    and scaled to integers. A tie cannot occur: the root of an integer is an integer or
    irrational.
  \<^item> The conversion back to \<^verbatim>\<open>int\<close> truncates.
  For a negative argument the square root is NaN, whose conversion to \<^verbatim>\<open>int\<close> is
  implementation-dependent; the value is that of amd64, the minimum integer.
\<close>

text \<open>The integer square root, two bits of the argument at a time.\<close>

fun isqrt :: "nat \<Rightarrow> nat" where
  "isqrt n =
     (if n = 0 then 0
      else (let r = 2 * isqrt (n div 4) in if (r + 1) * (r + 1) \<le> n then r + 1 else r))"

declare isqrt.simps [simp del]

text \<open>The number of binary digits of a natural number.\<close>

fun blen :: "nat \<Rightarrow> nat" where
  "blen n = (if n = 0 then 0 else Suc (blen (n div 2)))"

declare blen.simps [simp del]

definition round53 :: "nat \<Rightarrow> nat" where
  "round53 x =
     (if x < 2 ^ 53 then x
      else (let sh = blen x - 53; q = x div 2 ^ sh; rem = x mod 2 ^ sh; hf = 2 ^ (sh - 1)
            in if rem > hf \<or> (rem = hf \<and> odd q) then (q + 1) * 2 ^ sh else q * 2 ^ sh))"

definition rounds_up :: "nat \<Rightarrow> nat \<Rightarrow> bool" where
  "rounds_up y s =
     (let c = 2 ^ (53 - (blen s - 1)) in y * (c * c) > ((s + 1) * c - 1) * ((s + 1) * c - 1))"

definition Sqrt :: "int \<Rightarrow> int" where
  "Sqrt x =
     (if x < 0 then - (2 ^ 63)
      else (let y = round53 (nat x); s = isqrt y
            in if s * s = y then int s
               else if rounds_up y s then int s + 1 else int s))"

text \<open>\<^verbatim>\<open>planar.DistanceSquared\<close>.\<close>

definition DistanceSquared :: "point \<Rightarrow> point \<Rightarrow> int" where
  "DistanceSquared p1 p2 =
     (let d0 = wrap (fst p1 - fst p2); d1 = wrap (snd p1 - snd p2)
      in wrap (wrap (d0 * d0) + wrap (d1 * d1)))"

text \<open>\<^verbatim>\<open>PointOf.Equal\<close>.\<close>

definition Equal :: "point \<Rightarrow> point \<Rightarrow> bool" where
  "Equal p q = (fst p = fst q \<and> snd p = snd q)"

text \<open>\<^verbatim>\<open>BoundOf.Contains\<close>: two early returns, then true.\<close>

definition Contains :: "BoundOf \<Rightarrow> point \<Rightarrow> bool" where
  "Contains b pt =
     (if snd pt < snd (Min_b b) \<or> snd (Max_b b) < snd pt then False
      else if fst pt < fst (Min_b b) \<or> fst (Max_b b) < fst pt then False
      else True)"

section \<open>Entities, nodes, the index\<close>

text \<open>
  An \<^verbatim>\<open>orb.PointerOf[T]\<close> is an interface value with a \<^verbatim>\<open>Point()\<close> method; the
  caller's payload is an identifier. The nil interface is \<open>None\<close> of \<open>pointer option\<close>.
\<close>

datatype pointer = Pointer (ident: nat) (Point: point)

text \<open>
  \<^verbatim>\<open>node\<close>: a value (possibly nil) and the array \<^verbatim>\<open>Children [4]*node\<close>, one
  constructor argument per slot.
\<close>

datatype node = Node (Value: "pointer option")
  (child0: "node option") (child1: "node option") (child2: "node option") (child3: "node option")

text \<open>\<^verbatim>\<open>n.Children[i]\<close> and the assignment \<^verbatim>\<open>n.Children[i] = c\<close>, for \<open>i\<close> in 0..3.\<close>

fun Children :: "node \<Rightarrow> nat \<Rightarrow> node option" where
  "Children (Node v a b c d) i =
     (if i = 0 then a else if i = 1 then b else if i = 2 then c else d)"

fun set_Children :: "node \<Rightarrow> nat \<Rightarrow> node option \<Rightarrow> node" where
  "set_Children (Node v a b c d) i x =
     (if i = 0 then Node v x b c d else if i = 1 then Node v a x c d
      else if i = 2 then Node v a b x d else Node v a b c x)"

definition leaf :: "pointer \<Rightarrow> node" where
  "leaf p = Node (Some p) None None None None"

record QuadtreeOf =
  bound :: BoundOf
  root :: "node option"

datatype error = ErrPointOutsideOfBounds | NilPointerDereference | IndexOutOfRange

definition New :: "BoundOf \<Rightarrow> QuadtreeOf" where
  "New b = \<lparr>bound = b, root = None\<rparr>"

section \<open>Insertion\<close>

text \<open>
  The first half of \<^verbatim>\<open>add\<close>: the quadrant index and the narrowed cell
  \<open>(i, left, right, bottom, top)\<close>.
\<close>

definition add_quadrant :: "point \<Rightarrow> int \<Rightarrow> int \<Rightarrow> int \<Rightarrow> int \<Rightarrow> nat \<times> int \<times> int \<times> int \<times> int" where
  "add_quadrant pt left right bottom top_y =
     (let cy = half (wrap (bottom + top_y));
          (top1, bottom1, i) = (if snd pt \<le> cy then (cy, bottom, 2) else (top_y, cy, 0));
          cx = half (wrap (left + right));
          (left1, right1, i1) = (if fst pt \<ge> cx then (cx, right, i + 1) else (left, cx, i))
      in (i1, left1, right1, bottom1, top1))"

lemma size_Children [termination_simp]: "Children n i = Some c \<Longrightarrow> size c < size n"
  by (cases n) (auto split: if_splits)

fun add :: "node \<Rightarrow> pointer \<Rightarrow> point \<Rightarrow> int \<Rightarrow> int \<Rightarrow> int \<Rightarrow> int \<Rightarrow> node" where
  "add n p pt left right bottom top_y =
     (case add_quadrant pt left right bottom top_y of
        (i, left1, right1, bottom1, top1) \<Rightarrow>
          (case Children n i of
             None \<Rightarrow> set_Children n i (Some (leaf p))
           | Some c \<Rightarrow> set_Children n i (Some (add c p pt left1 right1 bottom1 top1))))"

declare add.simps [simp del]

text \<open>\<^verbatim>\<open>Add\<close> returns the error value (\<open>None\<close> is Go's nil error) and the index after the call.\<close>

definition Add :: "QuadtreeOf \<Rightarrow> pointer option \<Rightarrow> error option \<times> QuadtreeOf" where
  "Add q p =
     (case p of
        None \<Rightarrow> (None, q)
      | Some e \<Rightarrow>
          if \<not> Contains (bound q) (Point e) then (Some ErrPointOutsideOfBounds, q)
          else (case root q of
                  None \<Rightarrow> (None, q\<lparr>root := Some (leaf e)\<rparr>)
                | Some n \<Rightarrow>
                    (None, q\<lparr>root := Some (add n e (Point e)
                       (fst (Min_b (bound q))) (fst (Max_b (bound q)))
                       (snd (Min_b (bound q))) (snd (Max_b (bound q))))\<rparr>)))"

text \<open>\<^verbatim>\<open>childIndex\<close>, used by the traversal.\<close>

definition childIndex :: "int \<Rightarrow> int \<Rightarrow> point \<Rightarrow> nat" where
  "childIndex cx cy pt =
     (let i = (if snd pt \<le> cy then 2 else 0) in if fst pt \<ge> cx then i + 1 else i)"

section \<open>The traversal engine\<close>

text \<open>
  A \<^verbatim>\<open>*node\<close> handed to a visitor is the node together with its address, the list of
  child indices leading to it from the root; the tree is not modified while a traversal
  runs. The \<^verbatim>\<open>visitor\<close> interface is a record of its three methods over the visitor's
  own state. A Go panic is the \<open>Inl\<close> of the result.
\<close>

record 's visitor =
  v_Bound :: "'s \<Rightarrow> BoundOf"
  v_Visit :: "nat list \<Rightarrow> node \<Rightarrow> 's \<Rightarrow> error + 's"
  v_Point :: "'s \<Rightarrow> point"

text \<open>The cell handed to child \<open>k\<close> in the loop of \<^verbatim>\<open>visit.Visit\<close>.\<close>

definition subcell :: "nat \<Rightarrow> int \<Rightarrow> int \<Rightarrow> int \<Rightarrow> int \<Rightarrow> int \<times> int \<times> int \<times> int" where
  "subcell k left right bottom top_y =
     (let cx = half (wrap (left + right)); cy = half (wrap (bottom + top_y))
      in if k = 0 then (left, cx, cy, top_y)
         else if k = 1 then (cx, right, cy, top_y)
         else if k = 2 then (left, cx, bottom, cy)
         else (cx, right, bottom, cy))"

text \<open>
  \<^verbatim>\<open>visit.Visit\<close>; \<open>VisitChildren\<close> is its loop \<^verbatim>\<open>for j := i; j < i+4; j++\<close> over the
  remaining values of \<open>j\<close>. The prune test reads the visitor's bound before the node
  is dereferenced.
\<close>

function Visit :: "'s visitor \<Rightarrow> node option \<Rightarrow> nat list \<Rightarrow> int \<Rightarrow> int \<Rightarrow> int \<Rightarrow> int \<Rightarrow> 's \<Rightarrow> error + 's"
  and VisitChildren :: "'s visitor \<Rightarrow> node \<Rightarrow> nat list \<Rightarrow> nat list \<Rightarrow> int \<Rightarrow> int \<Rightarrow> int \<Rightarrow> int \<Rightarrow> 's \<Rightarrow> error + 's"
where
  "Visit v n path left right bottom top_y s =
     (let b = v_Bound v s in
      if left > fst (Max_b b) \<or> right < fst (Min_b b) \<or>
         bottom > snd (Max_b b) \<or> top_y < snd (Min_b b) then Inr s
      else (case n of
              None \<Rightarrow> Inl NilPointerDereference
            | Some nd \<Rightarrow>
                (case (if Value nd \<noteq> None then v_Visit v path nd s else Inr s) of
                   Inl e \<Rightarrow> Inl e
                 | Inr s1 \<Rightarrow>
                     if Children nd 0 = None \<and> Children nd 1 = None \<and>
                        Children nd 2 = None \<and> Children nd 3 = None then Inr s1
                     else (let cx = half (wrap (left + right));
                               cy = half (wrap (bottom + top_y));
                               i = childIndex cx cy (v_Point v s1)
                           in VisitChildren v nd path [i, i + 1, i + 2, i + 3]
                                left right bottom top_y s1))))"
| "VisitChildren v nd path [] left right bottom top_y s = Inr s"
| "VisitChildren v nd path (j # js) left right bottom top_y s =
     (case Children nd (j mod 4) of
        None \<Rightarrow> VisitChildren v nd path js left right bottom top_y s
      | Some c \<Rightarrow>
          (case subcell (j mod 4) left right bottom top_y of
             (left1, right1, bottom1, top1) \<Rightarrow>
               (case Visit v (Some c) (path @ [j mod 4]) left1 right1 bottom1 top1 s of
                  Inl e \<Rightarrow> Inl e
                | Inr s1 \<Rightarrow> VisitChildren v nd path js left right bottom top_y s1)))"
  by pat_completeness auto
termination
  by (relation "measure (\<lambda>x. case x of
        Inl (v, n, path, l, r, b, t, s) \<Rightarrow> 6 * (case n of None \<Rightarrow> 0 | Some nd \<Rightarrow> size nd) + 5
      | Inr (v, nd, path, js, l, r, b, t, s) \<Rightarrow> 6 * size nd + length js)")
     (auto dest: size_Children)

declare Visit.simps [simp del]

section \<open>Nearest neighbour\<close>

record findVisitor =
  f_point :: point
  f_filter :: "(pointer \<Rightarrow> bool) option"
  f_closest :: "(nat list \<times> node) option"
  f_closestBound :: BoundOf
  f_minDistSquared :: int

text \<open>The square of half-width \<open>d\<close> around \<open>pt\<close> written into \<^verbatim>\<open>closestBound\<close>.\<close>

definition square_around :: "point \<Rightarrow> int \<Rightarrow> BoundOf" where
  "square_around pt d =
     \<lparr>Min_b = (wrap (fst pt - d), wrap (snd pt - d)),
      Max_b = (wrap (fst pt + d), wrap (snd pt + d))\<rparr>"

text \<open>\<^verbatim>\<open>v.filter != nil && !v.filter(n.Value)\<close>.\<close>

definition rejected :: "(pointer \<Rightarrow> bool) option \<Rightarrow> pointer \<Rightarrow> bool" where
  "rejected f e = (case f of None \<Rightarrow> False | Some g \<Rightarrow> \<not> g e)"

definition findVisitor_Visit :: "nat list \<Rightarrow> node \<Rightarrow> findVisitor \<Rightarrow> error + findVisitor" where
  "findVisitor_Visit path n s =
     (case Value n of
        None \<Rightarrow> Inl NilPointerDereference
      | Some e \<Rightarrow>
          if rejected (f_filter s) e then Inr s
          else (let d = DistanceSquared (Point e) (f_point s) in
                if d < f_minDistSquared s
                then Inr (s\<lparr>f_minDistSquared := d, f_closest := Some (path, n),
                            f_closestBound := square_around (f_point s) (Sqrt d)\<rparr>)
                else Inr s))"

definition findV :: "findVisitor visitor" where
  "findV = \<lparr>v_Bound = f_closestBound, v_Visit = findVisitor_Visit, v_Point = f_point\<rparr>"

text \<open>The call \<^verbatim>\<open>newVisit(v).Visit(q.root, ...)\<close> made by every query, on the universe cell.\<close>

definition Visit_root :: "'s visitor \<Rightarrow> QuadtreeOf \<Rightarrow> 's \<Rightarrow> error + 's" where
  "Visit_root v q s =
     Visit v (root q) [] (fst (Min_b (bound q))) (fst (Max_b (bound q)))
       (snd (Min_b (bound q))) (snd (Max_b (bound q))) s"

definition findVisitor_init :: "QuadtreeOf \<Rightarrow> point \<Rightarrow> (pointer \<Rightarrow> bool) option \<Rightarrow> findVisitor" where
  "findVisitor_init q p f =
     \<lparr>f_point = p, f_filter = f, f_closest = None, f_closestBound = bound q,
      f_minDistSquared = MaxOf\<rparr>"



section \<open>Removal\<close>

definition set_Value :: "node \<Rightarrow> pointer option \<Rightarrow> node" where
  "set_Value n x = (case n of Node v a b c d \<Rightarrow> Node x a b c d)"

text \<open>The scan of \<^verbatim>\<open>removeNode\<close> for the first occupied slot; \<open>None\<close> is \<^verbatim>\<open>i == -1\<close>.\<close>

definition first_child :: "node \<Rightarrow> nat option" where
  "first_child n =
     (if Children n 0 \<noteq> None then Some 0
      else if Children n 1 \<noteq> None then Some 1
      else if Children n 2 \<noteq> None then Some 2
      else if Children n 3 \<noteq> None then Some 3
      else None)"

lemma size_node_pos: "0 < size (c :: node)"
  by (cases c) simp

lemma size_set_Children_None: "Children n i = Some c \<Longrightarrow> size (set_Children n i None) < size n"
  by (cases n) (auto split: if_splits simp: size_node_pos)

text \<open>
  \<^verbatim>\<open>removeNode\<close>: the \<^verbatim>\<open>continue\<close> branch clears a slot whose node has no value and
  scans again; after the \<^verbatim>\<open>break\<close> the child's value is pulled up and the child is
  fixed up in turn.
\<close>

function removeNode :: "node \<Rightarrow> node" where
  "removeNode n =
     (case first_child n of
        None \<Rightarrow> set_Value n None
      | Some i \<Rightarrow>
          (case Children n i of
             None \<Rightarrow> set_Value n None
           | Some c \<Rightarrow>
               if Value c = None then removeNode (set_Children n i None)
               else set_Children (set_Value n (Value c)) i (Some (removeNode c))))"
  by pat_completeness auto
termination
  by (relation "measure size") (auto dest: size_Children size_set_Children_None)

declare removeNode.simps [simp del]

text \<open>The in-place update of the node at an address.\<close>

fun update_at :: "node \<Rightarrow> nat list \<Rightarrow> (node \<Rightarrow> node) \<Rightarrow> node" where
  "update_at n [] g = g n"
| "update_at n (i # path) g =
     (case Children n i of
        None \<Rightarrow> n
      | Some c \<Rightarrow> set_Children n i (Some (update_at c path g)))"

text \<open>
  \<^verbatim>\<open>Remove\<close> returns the flag and the index after the call. The target \<open>p\<close> is a
  non-nil entity; \<open>eq\<close> is the optional matcher.
\<close>

definition Remove :: "QuadtreeOf \<Rightarrow> pointer \<Rightarrow> (pointer \<Rightarrow> bool) option \<Rightarrow> error + (bool \<times> QuadtreeOf)" where
  "Remove q p eq =
     (let eq1 = (case eq of None \<Rightarrow> (\<lambda>x. Equal (Point p) (Point x)) | Some g \<Rightarrow> g)
      in case Visit_root findV q (findVisitor_init q (Point p) (Some eq1)) of
           Inl e \<Rightarrow> Inl e
         | Inr s \<Rightarrow>
             (case f_closest s of
                None \<Rightarrow> Inr (False, q)
              | Some (path, n) \<Rightarrow>
                  Inr (True, q\<lparr>root := map_option (\<lambda>r. update_at r path removeNode) (root q)\<rparr>)))"

section \<open>Range query\<close>

record inBoundVisitor =
  i_bound :: BoundOf
  i_pointers :: "pointer list"
  i_filter :: "(pointer \<Rightarrow> bool) option"

definition inBoundVisitor_Visit :: "nat list \<Rightarrow> node \<Rightarrow> inBoundVisitor \<Rightarrow> error + inBoundVisitor" where
  "inBoundVisitor_Visit path n s =
     (case Value n of
        None \<Rightarrow> Inl NilPointerDereference
      | Some e \<Rightarrow>
          if rejected (i_filter s) e then Inr s
          else if fst (Min_b (i_bound s)) > fst (Point e) \<or> fst (Max_b (i_bound s)) < fst (Point e) \<or>
                  snd (Min_b (i_bound s)) > snd (Point e) \<or> snd (Max_b (i_bound s)) < snd (Point e)
          then Inr s
          else Inr (s\<lparr>i_pointers := i_pointers s @ [e]\<rparr>))"

text \<open>\<^verbatim>\<open>inBoundVisitor.Point\<close> returns the zero value of its named result.\<close>

definition inBoundV :: "inBoundVisitor visitor" where
  "inBoundV = \<lparr>v_Bound = i_bound, v_Visit = inBoundVisitor_Visit, v_Point = (\<lambda>s. (0, 0))\<rparr>"

text \<open>The output buffer only lends storage: the result starts empty with or without it.\<close>

definition InBoundMatching :: "QuadtreeOf \<Rightarrow> BoundOf \<Rightarrow> (pointer \<Rightarrow> bool) option \<Rightarrow> error + pointer list" where
  "InBoundMatching q b f =
     (case root q of
        None \<Rightarrow> Inr []
      | Some r \<Rightarrow>
          (case Visit_root inBoundV q \<lparr>i_bound = b, i_pointers = [], i_filter = f\<rparr> of
             Inl e \<Rightarrow> Inl e
           | Inr s \<Rightarrow> Inr (i_pointers s)))"

definition InBound :: "QuadtreeOf \<Rightarrow> BoundOf \<Rightarrow> error + pointer list" where
  "InBound q b = InBoundMatching q b None"

section \<open>K nearest\<close>

text \<open>
  Modelled from the spec: the \<^verbatim>\<open>maxHeap\<close> type and its \<^verbatim>\<open>Push\<close> and \<^verbatim>\<open>Pop\<close> are not
  among the sources. The spec calls it a bounded max-heap, a priority structure keyed by
  squared distance from which the worst kept candidate is popped. The model keeps the
  items with the largest distance first, so that index 0 is the top, as the traversal's
  \<^verbatim>\<open>v.maxHeap[0]\<close> expects; \<open>Pop\<close> removes and returns the top, and panics on an empty
  heap.
\<close>

type_synonym heapItem = "pointer \<times> int"

fun Push :: "heapItem list \<Rightarrow> pointer \<Rightarrow> int \<Rightarrow> heapItem list" where
  "Push [] p d = [(p, d)]"
| "Push (x # xs) p d = (if snd x \<le> d then (p, d) # x # xs else x # Push xs p d)"

definition Pop :: "heapItem list \<Rightarrow> error + (heapItem \<times> heapItem list)" where
  "Pop h = (case h of [] \<Rightarrow> Inl IndexOutOfRange | x # xs \<Rightarrow> Inr (x, xs))"

record nearestVisitor =
  n_point :: point
  n_filter :: "(pointer \<Rightarrow> bool) option"
  n_k :: nat
  n_maxHeap :: "heapItem list"
  n_closestBound :: BoundOf
  n_maxDistSquared :: int

text \<open>
  \<^verbatim>\<open>nearestVisitor.Visit\<close>. After the pop, \<^verbatim>\<open>top := v.maxHeap[0]\<close> indexes the heap,
  which panics when the heap is empty.
\<close>

definition nearestVisitor_Visit :: "nat list \<Rightarrow> node \<Rightarrow> nearestVisitor \<Rightarrow> error + nearestVisitor" where
  "nearestVisitor_Visit path n s =
     (case Value n of
        None \<Rightarrow> Inl NilPointerDereference
      | Some e \<Rightarrow>
          if rejected (n_filter s) e then Inr s
          else (let d = DistanceSquared (Point e) (n_point s) in
                if d < n_maxDistSquared s
                then (let h1 = Push (n_maxHeap s) e d in
                      if length h1 > n_k s
                      then (case Pop h1 of
                              Inl err \<Rightarrow> Inl err
                            | Inr (popped, h2) \<Rightarrow>
                                (case h2 of
                                   [] \<Rightarrow> Inl IndexOutOfRange
                                 | top_item # rest \<Rightarrow>
                                     Inr (s\<lparr>n_maxHeap := h2,
                                            n_maxDistSquared := snd top_item,
                                            n_closestBound :=
                                              square_around (n_point s) (Sqrt (snd top_item))\<rparr>)))
                      else Inr (s\<lparr>n_maxHeap := h1\<rparr>))
                else Inr s))"

definition nearestV :: "nearestVisitor visitor" where
  "nearestV = \<lparr>v_Bound = n_closestBound, v_Visit = nearestVisitor_Visit, v_Point = n_point\<rparr>"

text \<open>
  The visitor \<^verbatim>\<open>KNearestMatching\<close> builds before the traversal starts. The variadic
  \<^verbatim>\<open>maxDistance\<close> is a list; \<open>k\<close> is non-negative.
\<close>

definition nearestVisitor_init ::
  "QuadtreeOf \<Rightarrow> point \<Rightarrow> nat \<Rightarrow> (pointer \<Rightarrow> bool) option \<Rightarrow> int list \<Rightarrow> nearestVisitor" where
  "nearestVisitor_init q p k f maxDistance =
     (let v = \<lparr>n_point = p, n_filter = f, n_k = k, n_maxHeap = [], n_closestBound = bound q,
               n_maxDistSquared = MaxOf\<rparr>
      in case maxDistance of
           [] \<Rightarrow> v
         | r # rest \<Rightarrow> v\<lparr>n_maxDistSquared := wrap (r * r)\<rparr>)"

text \<open>The repacking loop: \<open>i\<close> pops, each written in front of the later ones.\<close>

fun repack :: "nat \<Rightarrow> heapItem list \<Rightarrow> error + pointer list" where
  "repack 0 h = Inr []"
| "repack (Suc i) h =
     (case Pop h of
        Inl e \<Rightarrow> Inl e
      | Inr (x, h1) \<Rightarrow>
          (case repack i h1 of
             Inl e \<Rightarrow> Inl e
           | Inr buf \<Rightarrow> Inr (buf @ [fst x])))"

definition KNearestMatching ::
  "QuadtreeOf \<Rightarrow> point \<Rightarrow> nat \<Rightarrow> (pointer \<Rightarrow> bool) option \<Rightarrow> int list \<Rightarrow> error + pointer list" where
  "KNearestMatching q p k f maxDistance =
     (case root q of
        None \<Rightarrow> Inr []
      | Some r \<Rightarrow>
          (case Visit_root nearestV q (nearestVisitor_init q p k f maxDistance) of
             Inl e \<Rightarrow> Inl e
           | Inr s \<Rightarrow> repack (length (n_maxHeap s)) (n_maxHeap s)))"

definition KNearest :: "QuadtreeOf \<Rightarrow> point \<Rightarrow> nat \<Rightarrow> int list \<Rightarrow> error + pointer list" where
  "KNearest q p k maxDistance = KNearestMatching q p k None maxDistance"

section \<open>Sequences of insertions and the no-value-less-node invariant\<close>

text \<open>A sequence of \<^verbatim>\<open>Add\<close> calls, each on the index the previous one left.\<close>

definition Adds :: "QuadtreeOf \<Rightarrow> pointer option list \<Rightarrow> QuadtreeOf" where
  "Adds q ps = foldl (\<lambda>q1 p. snd (Add q1 p)) q ps"

text \<open>Every node of the subtree holds a value.\<close>

fun all_valued :: "node \<Rightarrow> bool" where
  "all_valued (Node v a b c d) =
     (v \<noteq> None \<and>
      (case a of None \<Rightarrow> True | Some n \<Rightarrow> all_valued n) \<and>
      (case b of None \<Rightarrow> True | Some n \<Rightarrow> all_valued n) \<and>
      (case c of None \<Rightarrow> True | Some n \<Rightarrow> all_valued n) \<and>
      (case d of None \<Rightarrow> True | Some n \<Rightarrow> all_valued n))"

definition all_valued_root :: "QuadtreeOf \<Rightarrow> bool" where
  "all_valued_root q = (case root q of None \<Rightarrow> True | Some n \<Rightarrow> all_valued n)"

section \<open>Concrete indexes used in the examples\<close>

definition ex_bound :: BoundOf where
  "ex_bound = \<lparr>Min_b = (0, 0), Max_b = (10, 10)\<rparr>"

definition ex_A :: pointer where "ex_A = Pointer 1 (1, 1)"
definition ex_B :: pointer where "ex_B = Pointer 2 (9, 9)"
definition ex_C :: pointer where "ex_C = Pointer 3 (8, 8)"

text \<open>The index after \<^verbatim>\<open>Add(A)\<close>, \<^verbatim>\<open>Add(B)\<close> on a new index over \<open>ex_bound\<close>.\<close>

definition ex_AB :: QuadtreeOf where
  "ex_AB = \<lparr>bound = ex_bound,
            root = Some (Node (Some ex_A) None (Some (leaf ex_B)) None None)\<rparr>"

text \<open>After \<^verbatim>\<open>Remove(B, nil)\<close>: the node of \<open>B\<close> stays linked, without a value.\<close>

definition ex_A_hole :: QuadtreeOf where
  "ex_A_hole = \<lparr>bound = ex_bound,
                root = Some (Node (Some ex_A) None (Some (Node None None None None None)) None None)\<rparr>"

text \<open>After \<^verbatim>\<open>Add(C)\<close>: \<open>C\<close> is placed below the value-less node.\<close>

definition ex_A_hole_C :: QuadtreeOf where
  "ex_A_hole_C = \<lparr>bound = ex_bound,
                  root = Some (Node (Some ex_A) None
                           (Some (Node None None (Some (leaf ex_C)) None None)) None None)\<rparr>"

text \<open>After \<^verbatim>\<open>Remove(A, nil)\<close>.\<close>

definition ex_empty_root :: QuadtreeOf where
  "ex_empty_root = \<lparr>bound = ex_bound, root = Some (Node None None None None None)\<rparr>"





section \<open>Stored entities and the cell invariant\<close>

text \<open>
  The values held in a subtree, the closed rectangle test, and the invariant that every
  entity of a subtree lies in the cell the traversal assigns to that subtree.
\<close>

fun entities :: "node \<Rightarrow> pointer list" where
  "entities (Node v a b c d) =
     (case v of None \<Rightarrow> [] | Some e \<Rightarrow> [e]) @
     (case a of None \<Rightarrow> [] | Some n \<Rightarrow> entities n) @
     (case b of None \<Rightarrow> [] | Some n \<Rightarrow> entities n) @
     (case c of None \<Rightarrow> [] | Some n \<Rightarrow> entities n) @
     (case d of None \<Rightarrow> [] | Some n \<Rightarrow> entities n)"

definition stored :: "QuadtreeOf \<Rightarrow> pointer list" where
  "stored q = (case root q of None \<Rightarrow> [] | Some n \<Rightarrow> entities n)"

definition within :: "int \<Rightarrow> int \<Rightarrow> int \<Rightarrow> int \<Rightarrow> point \<Rightarrow> bool" where
  "within left right bottom top_y pt =
     (left \<le> fst pt \<and> fst pt \<le> right \<and> bottom \<le> snd pt \<and> snd pt \<le> top_y)"

fun cells_ok :: "node \<Rightarrow> int \<Rightarrow> int \<Rightarrow> int \<Rightarrow> int \<Rightarrow> bool" where
  "cells_ok (Node v a b c d) left right bottom top_y =
     (list_all (\<lambda>e. within left right bottom top_y (Point e)) (entities (Node v a b c d)) \<and>
      (case a of None \<Rightarrow> True | Some n \<Rightarrow>
         (case subcell 0 left right bottom top_y of (l1, r1, b1, t1) \<Rightarrow> cells_ok n l1 r1 b1 t1)) \<and>
      (case b of None \<Rightarrow> True | Some n \<Rightarrow>
         (case subcell 1 left right bottom top_y of (l1, r1, b1, t1) \<Rightarrow> cells_ok n l1 r1 b1 t1)) \<and>
      (case c of None \<Rightarrow> True | Some n \<Rightarrow>
         (case subcell 2 left right bottom top_y of (l1, r1, b1, t1) \<Rightarrow> cells_ok n l1 r1 b1 t1)) \<and>
      (case d of None \<Rightarrow> True | Some n \<Rightarrow>
         (case subcell 3 left right bottom top_y of (l1, r1, b1, t1) \<Rightarrow> cells_ok n l1 r1 b1 t1)))"

definition cells_ok_root :: "QuadtreeOf \<Rightarrow> bool" where
  "cells_ok_root q =
     (case root q of
        None \<Rightarrow> True
      | Some n \<Rightarrow> cells_ok n (fst (Min_b (bound q))) (fst (Max_b (bound q)))
                    (snd (Min_b (bound q))) (snd (Max_b (bound q))))"

text \<open>The entities below one slot, and the value of the node itself, as multisets.\<close>

definition slot_mset :: "node \<Rightarrow> nat \<Rightarrow> pointer multiset" where
  "slot_mset nd k = (case Children nd k of None \<Rightarrow> {#} | Some c \<Rightarrow> mset (entities c))"

definition value_mset :: "node \<Rightarrow> pointer multiset" where
  "value_mset nd = (case Value nd of None \<Rightarrow> {#} | Some e \<Rightarrow> {#e#})"

text \<open>
  The traversal contract used in the proofs: from a state satisfying \<open>I\<close> for the entities
  \<open>A\<close> dealt with so far, the walk of a subtree returns (no panic) in a state
  satisfying \<open>I\<close> for \<open>A\<close> and the entities of the subtree.
\<close>

definition visit_ok :: "'s visitor \<Rightarrow> ('s \<Rightarrow> pointer multiset \<Rightarrow> bool) \<Rightarrow> pointer multiset \<Rightarrow> node \<Rightarrow> bool" where
  "visit_ok v I Eall nd =
     (\<forall>path l r b t s A. cells_ok nd l r b t \<longrightarrow> I s A \<longrightarrow> A + mset (entities nd) \<subseteq># Eall \<longrightarrow>
        (\<exists>s1. Visit v (Some nd) path l r b t s = Inr s1 \<and> I s1 (A + mset (entities nd))))"

text \<open>
  Points whose coordinates have magnitude at most \<open>2^24\<close>: between two of them no
  difference, square or sum of \<^verbatim>\<open>DistanceSquared\<close> wraps, the squared distance is exactly
  representable in \<^verbatim>\<open>float64\<close>, and the search square around one of them does not wrap.
\<close>

definition small :: "point \<Rightarrow> bool" where
  "small pt = (\<bar>fst pt\<bar> \<le> 2 ^ 24 \<and> \<bar>snd pt\<bar> \<le> 2 ^ 24)"



text \<open>The state invariant of the nearest-neighbour visitor.\<close>

definition bound_within :: "BoundOf \<Rightarrow> point \<Rightarrow> bool" where
  "bound_within cb pt = within (fst (Min_b cb)) (fst (Max_b cb)) (snd (Min_b cb)) (snd (Max_b cb)) pt"

definition find_inv :: "point \<Rightarrow> (pointer \<Rightarrow> bool) option \<Rightarrow> pointer multiset \<Rightarrow> findVisitor \<Rightarrow> pointer multiset \<Rightarrow> bool" where
  "find_inv p f Eall s A =
     (f_point s = p \<and> f_filter s = f \<and> f_minDistSquared s \<le> MaxOf
      \<and> (\<forall>e\<in>#Eall. DistanceSquared (Point e) p < f_minDistSquared s \<longrightarrow>
             bound_within (f_closestBound s) (Point e))
      \<and> (\<forall>e\<in>#A. rejected f e \<or> f_minDistSquared s \<le> DistanceSquared (Point e) p)
      \<and> (case f_closest s of
            None \<Rightarrow> f_minDistSquared s = MaxOf
          | Some (path, n) \<Rightarrow> \<exists>e. Value n = Some e \<and> e \<in># Eall \<and> \<not> rejected f e
                \<and> DistanceSquared (Point e) p = f_minDistSquared s))"

text \<open>The entities below an optional child.\<close>

definition opt_mset :: "node option \<Rightarrow> pointer multiset" where
  "opt_mset x = (case x of None \<Rightarrow> {#} | Some c \<Rightarrow> mset (entities c))"

section \<open>Runs of the index\<close>

text \<open>
  A run is a sequence of \<^verbatim>\<open>Add\<close> and \<^verbatim>\<open>Remove\<close> calls on one index; a panic ends it.
\<close>

datatype op = OpAdd "pointer option" | OpRemove pointer "(pointer \<Rightarrow> bool) option"

fun run :: "QuadtreeOf \<Rightarrow> op list \<Rightarrow> error + QuadtreeOf" where
  "run q [] = Inr q"
| "run q (OpAdd p # ops) = run (snd (Add q p)) ops"
| "run q (OpRemove p eq # ops) =
     (case Remove q p eq of Inl e \<Rightarrow> Inl e | Inr (found, q1) \<Rightarrow> run q1 ops)"

text \<open>The index after a single \<^verbatim>\<open>Add(A)\<close>.\<close>

definition ex_A_only :: QuadtreeOf where
  "ex_A_only = \<lparr>bound = ex_bound, root = Some (leaf ex_A)\<rparr>"

text \<open>The state invariants of the k-nearest visitor and of the range visitor.\<close>

definition knn_inv :: "point \<Rightarrow> (pointer \<Rightarrow> bool) option \<Rightarrow> nat \<Rightarrow> nearestVisitor \<Rightarrow> bool" where
  "knn_inv p f k s =
     (n_point s = p \<and> n_filter s = f \<and> n_k s = k \<and> length (n_maxHeap s) \<le> k
      \<and> sorted_wrt (\<lambda>x y. snd y \<le> snd x) (n_maxHeap s)
      \<and> list_all (\<lambda>x. snd x = DistanceSquared (Point (fst x)) p) (n_maxHeap s))"

definition knn_all_inv ::
  "QuadtreeOf \<Rightarrow> point \<Rightarrow> (pointer \<Rightarrow> bool) option \<Rightarrow> nat \<Rightarrow> nearestVisitor \<Rightarrow> pointer multiset \<Rightarrow> bool" where
  "knn_all_inv q p f k s A =
     (knn_inv p f k s \<and> n_closestBound s = bound q \<and> n_maxDistSquared s = MaxOf
      \<and> mset (map fst (n_maxHeap s)) = filter_mset (\<lambda>e. \<not> rejected f e) A)"

definition inBound_inv :: "BoundOf \<Rightarrow> (pointer \<Rightarrow> bool) option \<Rightarrow> inBoundVisitor \<Rightarrow> pointer multiset \<Rightarrow> bool" where
  "inBound_inv u f s A =
     (i_bound s = u \<and> i_filter s = f
      \<and> mset (i_pointers s) = filter_mset (\<lambda>e. \<not> rejected f e) A)"

section \<open>Properties of insertion\<close>

lemma Contains_iff:
  "Contains b pt =
     (\<not> (fst pt < fst (Min_b b) \<or> fst (Max_b b) < fst pt \<or>
         snd pt < snd (Min_b b) \<or> snd (Max_b b) < snd pt))"
  by (auto simp: Contains_def)

lemma Add_error_iff:
  "(fst (Add q (Some e)) = Some ErrPointOutsideOfBounds) = (\<not> Contains (bound q) (Point e))"
  by (simp add: Add_def split: option.splits)

text \<open>
  Claim C3. \<^verbatim>\<open>Add(e)\<close> returns the out-of-bounds error exactly when the point of \<open>e\<close> is
  strictly outside the universe rectangle in some coordinate (a point on the edge is
  inside), it returns no other error, and \<^verbatim>\<open>Add\<close> of the nil reference returns success
  and leaves the index as it was.
\<close>

theorem Add_error_exactly_outside:
  "(fst (Add q (Some e)) = Some ErrPointOutsideOfBounds) =
     (fst (Point e) < fst (Min_b (bound q)) \<or> fst (Max_b (bound q)) < fst (Point e) \<or>
      snd (Point e) < snd (Min_b (bound q)) \<or> snd (Max_b (bound q)) < snd (Point e))
   \<and> (fst (Add q (Some e)) = None) = Contains (bound q) (Point e)
   \<and> Add q None = (None, q)"
proof -
  have "(fst (Add q (Some e)) = None) = Contains (bound q) (Point e)"
    by (simp add: Add_def split: option.splits)
  moreover have "Add q None = (None, q)"
    by (simp add: Add_def)
  ultimately show ?thesis
    using Add_error_iff [of q e] Contains_iff [of "bound q" "Point e"] by blast
qed

text \<open>
  Claim C9. Whenever \<^verbatim>\<open>Add\<close> returns the out-of-bounds error, or is given the nil
  reference, the index after the call (root, stored entities, universe bound) is the
  index before the call.
\<close>

theorem Add_failure_keeps_index:
  "fst (Add q p) = Some ErrPointOutsideOfBounds \<or> p = None \<Longrightarrow> snd (Add q p) = q"
  by (auto simp: Add_def split: option.splits if_splits)

theorem Add_failure_keeps_index_witness:
  "fst (Add ex_AB (Some (Pointer 7 (11, 3)))) = Some ErrPointOutsideOfBounds
   \<and> snd (Add ex_AB (Some (Pointer 7 (11, 3)))) = ex_AB
   \<and> snd (Add ex_AB None) = ex_AB"
proof -
  have h: "fst (Add ex_AB (Some (Pointer 7 (11, 3)))) = Some ErrPointOutsideOfBounds"
    by (simp add: Add_def ex_AB_def ex_bound_def Contains_def)
  show ?thesis
    using h Add_failure_keeps_index [of ex_AB "Some (Pointer 7 (11, 3))"]
      Add_failure_keeps_index [of ex_AB None]
    by simp
qed

text \<open>
  Claim C8. The quadrant index is below 4; it is 2 or 3 (lower half) exactly when the
  point's y is at most the centre's y, and 0 or 1 exactly when y is strictly greater;
  it is odd (right half) exactly when the point's x is at least the centre's x. The
  index chosen by insertion for a cell is the traversal's \<^verbatim>\<open>childIndex\<close> at the centre
  of that cell.
\<close>

theorem quadrant_tie_breaks:
  "childIndex cx cy pt < 4
   \<and> (childIndex cx cy pt = 2 \<or> childIndex cx cy pt = 3) = (snd pt \<le> cy)
   \<and> (childIndex cx cy pt = 0 \<or> childIndex cx cy pt = 1) = (cy < snd pt)
   \<and> odd (childIndex cx cy pt) = (cx \<le> fst pt)
   \<and> fst (add_quadrant pt left right bottom top_y) =
       childIndex (half (wrap (left + right))) (half (wrap (bottom + top_y))) pt"
  by (simp add: childIndex_def add_quadrant_def Let_def)

section \<open>No value-less node without a removal\<close>

lemma all_valued_leaf: "all_valued (leaf p)"
  by (simp add: leaf_def)

lemma all_valued_set_Children:
  "all_valued n \<Longrightarrow> all_valued c \<Longrightarrow> all_valued (set_Children n i (Some c))"
  by (cases n) simp

lemma all_valued_Children:
  "all_valued n \<Longrightarrow> Children n i = Some c \<Longrightarrow> all_valued c"
  by (cases n) (auto split: if_splits)

lemma all_valued_add: "all_valued n \<Longrightarrow> all_valued (add n p pt l r b t)"
proof (induction n p pt l r b t rule: add.induct)
  case (1 n p pt left right bottom top_y)
  obtain i l1 r1 b1 t1 where aq: "add_quadrant pt left right bottom top_y = (i, l1, r1, b1, t1)"
    by (metis prod_cases5)
  show ?case
  proof (cases "Children n i")
    case None
    then show ?thesis
      using aq "1.prems" by (simp add: add.simps [of n] all_valued_set_Children all_valued_leaf)
  next
    case (Some c)
    have "all_valued c" using "1.prems" Some by (rule all_valued_Children)
    then have "all_valued (add c p pt l1 r1 b1 t1)"
      using "1.IH" [of i "(l1, r1, b1, t1)" l1 "(r1, b1, t1)" r1 "(b1, t1)" b1 t1 c] aq Some
      by simp
    then show ?thesis
      using aq Some "1.prems" by (simp add: add.simps [of n] all_valued_set_Children)
  qed
qed

lemma all_valued_root_Add: "all_valued_root q \<Longrightarrow> all_valued_root (snd (Add q p))"
  by (simp add: Add_def all_valued_root_def all_valued_leaf all_valued_add split: option.splits)

lemma all_valued_root_Adds: "all_valued_root q \<Longrightarrow> all_valued_root (Adds q ps)"
  unfolding Adds_def
  by (induction ps arbitrary: q) (simp_all add: all_valued_root_Add)

lemmas ex_defs = ex_bound_def ex_A_def ex_B_def ex_C_def ex_AB_def ex_A_hole_def ex_A_hole_C_def
  ex_empty_root_def leaf_def

text \<open>
  Claim C10. In the index built by \<^verbatim>\<open>New\<close> and any sequence of \<^verbatim>\<open>Add\<close> calls (nil
  references and out-of-bounds entities included), every node of the tree holds a value.
\<close>

theorem Adds_all_valued: "all_valued_root (Adds (New b) ps)"
  by (rule all_valued_root_Adds) (simp add: all_valued_root_def New_def)

theorem Adds_all_valued_witness:
  "Adds (New ex_bound) [Some ex_A, None, Some (Pointer 7 (11, 3)), Some ex_B] = ex_AB
   \<and> all_valued_root ex_AB"
  using Adds_all_valued [of ex_bound "[Some ex_A, None, Some (Pointer 7 (11, 3)), Some ex_B]"]
  by (simp add: Adds_def Add_def New_def Contains_def add_quadrant_def half_def wrap_def
      add.simps ex_defs)

section \<open>The maximum search radius\<close>



section \<open>Runs that end in a panic or lose an entity\<close>

lemmas find_defs = Visit_root_def findV_def findVisitor_init_def findVisitor_Visit_def rejected_def
  DistanceSquared_def MaxOf_def Equal_def childIndex_def half_def subcell_def square_around_def
  wrap_def Visit.simps

lemmas inBound_defs = InBound_def InBoundMatching_def Visit_root_def inBoundV_def
  inBoundVisitor_Visit_def rejected_def childIndex_def half_def subcell_def wrap_def Visit.simps

lemma Sqrt_0: "Sqrt 0 = 0"
  by (simp add: Sqrt_def round53_def isqrt.simps)

lemma run_step1:
  "Add (New ex_bound) (Some ex_A) = (None, \<lparr>bound = ex_bound, root = Some (leaf ex_A)\<rparr>)"
  by (simp add: Add_def New_def Contains_def ex_defs)

lemma run_step2: "Add \<lparr>bound = ex_bound, root = Some (leaf ex_A)\<rparr> (Some ex_B) = (None, ex_AB)"
  by (simp add: Add_def Contains_def ex_defs add_quadrant_def half_def wrap_def add.simps)

lemma run_step3: "Remove ex_AB ex_B None = Inr (True, ex_A_hole)"
  by (simp add: Remove_def find_defs ex_defs Sqrt_0 first_child_def set_Value_def removeNode.simps)

lemma run_step4: "Add ex_A_hole (Some ex_C) = (None, ex_A_hole_C)"
  by (simp add: Add_def Contains_def ex_defs add_quadrant_def half_def wrap_def add.simps)

lemma run_step5: "InBound ex_A_hole_C ex_bound = Inr [ex_A, ex_C]"
  by (simp add: inBound_defs ex_defs)

lemma run_step6: "Remove ex_A_hole_C ex_A None = Inr (True, ex_empty_root)"
  by (simp add: Remove_def find_defs ex_defs Sqrt_0 first_child_def set_Value_def removeNode.simps)

lemma run_step7: "InBound ex_empty_root ex_bound = Inr []"
  by (simp add: inBound_defs ex_defs)

text \<open>
  Claim C2 at a failing run, on a new index over (0,0)-(10,10): \<^verbatim>\<open>Add(A)\<close>, \<^verbatim>\<open>Add(B)\<close>,
  \<^verbatim>\<open>Remove(B)\<close>, \<^verbatim>\<open>Add(C)\<close>, \<^verbatim>\<open>Remove(A)\<close> all succeed, and \<open>C\<close> is reported by
  \<^verbatim>\<open>InBound\<close> over the universe before the last removal. After it \<^verbatim>\<open>InBound\<close> over the
  universe is empty, although \<open>C\<close> was added and never removed: removing \<open>A\<close> cleared the
  slot of the value-less node under which \<open>C\<close> had been placed.
\<close>

theorem Remove_loses_other_entity:
  "Add (New ex_bound) (Some ex_A) = (None, \<lparr>bound = ex_bound, root = Some (leaf ex_A)\<rparr>)
   \<and> Add \<lparr>bound = ex_bound, root = Some (leaf ex_A)\<rparr> (Some ex_B) = (None, ex_AB)
   \<and> Remove ex_AB ex_B None = Inr (True, ex_A_hole)
   \<and> Add ex_A_hole (Some ex_C) = (None, ex_A_hole_C)
   \<and> InBound ex_A_hole_C ex_bound = Inr [ex_A, ex_C]
   \<and> Remove ex_A_hole_C ex_A None = Inr (True, ex_empty_root)
   \<and> InBound ex_empty_root ex_bound = Inr []"
  using run_step1 run_step2 run_step3 run_step4 run_step5 run_step6 run_step7 by blast

text \<open>
  Claim C5 at a failing input: \<^verbatim>\<open>Remove\<close> on an index that never held an entity, over a
  non-empty universe, dereferences the nil root instead of returning false.
\<close>

theorem Remove_on_new_index_panics:
  "Remove (New ex_bound) (Pointer 0 (5, 5)) None = Inl NilPointerDereference"
  by (simp add: Remove_def New_def ex_bound_def find_defs)

text \<open>
  Claim C6 at a failing input: \<^verbatim>\<open>KNearest\<close> with \<open>k = 0\<close> on an index holding two
  entities pushes the first candidate, pops it, and indexes the empty heap.
\<close>

theorem KNearest_zero_panics:
  "KNearest ex_AB (0, 0) 0 [] = Inl IndexOutOfRange"
  by (simp add: KNearest_def KNearestMatching_def Visit_root_def nearestV_def
      nearestVisitor_init_def nearestVisitor_Visit_def rejected_def DistanceSquared_def
      MaxOf_def Pop_def wrap_def Visit.simps ex_defs)

section \<open>The traversal visits or soundly prunes every entity\<close>

lemma mset_entities:
  "mset (entities nd) = value_mset nd + slot_mset nd 0 + slot_mset nd 1 + slot_mset nd 2 + slot_mset nd 3"
  by (cases nd) (simp add: slot_mset_def value_mset_def split: option.splits)

lemma cells_ok_entities:
  "cells_ok nd l r b t \<Longrightarrow> e \<in> set (entities nd) \<Longrightarrow> within l r b t (Point e)"
  by (cases nd) (simp add: list_all_iff)

lemma cells_ok_child:
  "cells_ok nd l r b t \<Longrightarrow> Children nd k = Some c \<Longrightarrow> k < 4 \<Longrightarrow>
     subcell k l r b t = (l1, r1, b1, t1) \<Longrightarrow> cells_ok c l1 r1 b1 t1"
  apply (cases nd)
  apply (cases "k = 0"; cases "k = 1"; cases "k = 2"; cases "k = 3")
  apply (simp_all del: cells_ok.simps add: cells_ok.simps [of _ _ _ _ _ l r b t])
  done

lemma rot_slots:
  "slot_mset nd (i mod 4) + slot_mset nd ((i + 1) mod 4) + slot_mset nd ((i + 2) mod 4)
     + slot_mset nd ((i + 3) mod 4)
   = slot_mset nd 0 + slot_mset nd 1 + slot_mset nd 2 + slot_mset nd 3"
proof -
  consider "i mod 4 = 0" | "i mod 4 = 1" | "i mod 4 = 2" | "i mod 4 = 3" by arith
  then show ?thesis
  proof cases
    case 1
    then have "(i + 1) mod 4 = 1" "(i + 2) mod 4 = 2" "(i + 3) mod 4 = 3" by presburger+
    with 1 show ?thesis by simp
  next
    case 2
    then have "(i + 1) mod 4 = 2" "(i + 2) mod 4 = 3" "(i + 3) mod 4 = 0" by presburger+
    with 2 show ?thesis by (simp add: ac_simps)
  next
    case 3
    then have "(i + 1) mod 4 = 3" "(i + 2) mod 4 = 0" "(i + 3) mod 4 = 1" by presburger+
    with 3 show ?thesis by (simp add: ac_simps)
  next
    case 4
    then have "(i + 1) mod 4 = 0" "(i + 2) mod 4 = 1" "(i + 3) mod 4 = 2" by presburger+
    with 4 show ?thesis by (simp add: ac_simps)
  qed
qed

lemma visit_okD:
  "visit_ok v I Eall nd \<Longrightarrow> cells_ok nd l r b t \<Longrightarrow> I s A \<Longrightarrow> A + mset (entities nd) \<subseteq># Eall \<Longrightarrow>
     \<exists>s1. Visit v (Some nd) path l r b t s = Inr s1 \<and> I s1 (A + mset (entities nd))"
  unfolding visit_ok_def by blast

lemma slot_mset_None: "Children nd k = None \<Longrightarrow> slot_mset nd k = {#}"
  by (simp add: slot_mset_def)

lemma slot_mset_Some: "Children nd k = Some c \<Longrightarrow> slot_mset nd k = mset (entities c)"
  by (simp add: slot_mset_def)

lemma VisitChildren_rule:
  assumes kids: "\<And>k c. k < 4 \<Longrightarrow> Children nd k = Some c \<Longrightarrow> visit_ok v I Eall c"
    and ok: "cells_ok nd l r b t"
  shows "I s A \<Longrightarrow> A + (\<Sum>j\<leftarrow>js. slot_mset nd (j mod 4)) \<subseteq># Eall \<Longrightarrow>
     \<exists>s1. VisitChildren v nd path js l r b t s = Inr s1
          \<and> I s1 (A + (\<Sum>j\<leftarrow>js. slot_mset nd (j mod 4)))"
proof (induction js arbitrary: s A)
  case Nil
  then show ?case by simp
next
  case (Cons j js)
  let ?k = "j mod 4"
  let ?rest = "\<Sum>j\<leftarrow>js. slot_mset nd (j mod 4)"
  have k4: "?k < 4" by simp
  show ?case
  proof (cases "Children nd ?k")
    case None
    then have sl: "slot_mset nd ?k = {#}" by (rule slot_mset_None)
    from Cons.prems sl have "A + ?rest \<subseteq># Eall" by simp
    from Cons.IH [OF Cons.prems(1) this] None sl show ?thesis by simp
  next
    case (Some c)
    then have sl: "slot_mset nd ?k = mset (entities c)" by (rule slot_mset_Some)
    obtain l1 r1 b1 t1 where sc: "subcell ?k l r b t = (l1, r1, b1, t1)"
      by (metis prod_cases4)
    have okc: "cells_ok c l1 r1 b1 t1"
      using ok Some k4 sc by (rule cells_ok_child)
    have sub: "A + mset (entities c) + ?rest \<subseteq># Eall"
      using Cons.prems(2) sl by (simp add: ac_simps)
    then have sub1: "A + mset (entities c) \<subseteq># Eall"
      by (metis subset_mset.dual_order.trans mset_subset_eq_add_left)
    obtain s1 where s1: "Visit v (Some c) (path @ [?k]) l1 r1 b1 t1 s = Inr s1"
      and I1: "I s1 (A + mset (entities c))"
      using visit_okD [OF kids [OF k4 Some] okc Cons.prems(1) sub1] by blast
    obtain s2 where s2: "VisitChildren v nd path js l r b t s1 = Inr s2"
      and I2: "I s2 (A + mset (entities c) + ?rest)"
      using Cons.IH [OF I1 sub] by blast
    show ?thesis
      using Some sc s1 s2 I2 sl by (simp add: ac_simps)
  qed
qed

lemma Visit_rule:
  assumes visit: "\<And>path n e s A. I s A \<Longrightarrow> Value n = Some e \<Longrightarrow> A + {#e#} \<subseteq># Eall \<Longrightarrow>
            \<exists>s1. v_Visit v path n s = Inr s1 \<and> I s1 (A + {#e#})"
    and prune: "\<And>s A B l r b t. I s A \<Longrightarrow> A + B \<subseteq># Eall \<Longrightarrow>
            \<forall>e\<in>#B. within l r b t (Point e) \<Longrightarrow>
            l > fst (Max_b (v_Bound v s)) \<or> r < fst (Min_b (v_Bound v s)) \<or>
            b > snd (Max_b (v_Bound v s)) \<or> t < snd (Min_b (v_Bound v s)) \<Longrightarrow>
            I s (A + B)"
  shows "visit_ok v I Eall nd"
proof (induction "size nd" arbitrary: nd rule: less_induct)
  case less
  have kids: "\<And>k c. k < 4 \<Longrightarrow> Children nd k = Some c \<Longrightarrow> visit_ok v I Eall c"
    using less size_Children by blast
  show ?case
    unfolding visit_ok_def
  proof (intro allI impI)
    fix path l r b t s A
    assume ok: "cells_ok nd l r b t" and I: "I s A" and sub: "A + mset (entities nd) \<subseteq># Eall"
    let ?pr = "l > fst (Max_b (v_Bound v s)) \<or> r < fst (Min_b (v_Bound v s)) \<or>
            b > snd (Max_b (v_Bound v s)) \<or> t < snd (Min_b (v_Bound v s))"
    show "\<exists>s1. Visit v (Some nd) path l r b t s = Inr s1 \<and> I s1 (A + mset (entities nd))"
    proof (cases ?pr)
      case True
      have "\<forall>e\<in>#mset (entities nd). within l r b t (Point e)"
        using ok cells_ok_entities by auto
      from prune [OF I sub this True] True show ?thesis
        by (simp add: Visit.simps)
    next
      case False
      let ?slots = "slot_mset nd 0 + slot_mset nd 1 + slot_mset nd 2 + slot_mset nd 3"
      have ents: "mset (entities nd) = value_mset nd + ?slots"
        by (simp add: mset_entities ac_simps)
      have subv: "A + value_mset nd \<subseteq># Eall"
        using sub unfolding ents
        by (metis subset_mset.dual_order.trans mset_subset_eq_add_left add.assoc)
      have "\<exists>s1. (if Value nd \<noteq> None then v_Visit v path nd s else Inr s) = Inr s1
                \<and> I s1 (A + value_mset nd)"
      proof (cases "Value nd")
        case None
        then show ?thesis using I by (simp add: value_mset_def)
      next
        case (Some e)
        then have vm: "value_mset nd = {#e#}" by (simp add: value_mset_def)
        from visit [OF I Some] subv vm Some show ?thesis by simp
      qed
      then obtain s1 where s1: "(if Value nd \<noteq> None then v_Visit v path nd s else Inr s) = Inr s1"
        and I1: "I s1 (A + value_mset nd)" by blast
      show ?thesis
      proof (cases "Children nd 0 = None \<and> Children nd 1 = None \<and>
                    Children nd 2 = None \<and> Children nd 3 = None")
        case True
        then have "?slots = {#}" by (simp add: slot_mset_None)
        with I1 ents have "I s1 (A + mset (entities nd))" by simp
        then show ?thesis using False s1 True by (simp add: Visit.simps)
      next
        case nonleaf: False
        define i where "i = childIndex (half (wrap (l + r))) (half (wrap (b + t))) (v_Point v s1)"
        let ?js = "[i, i + 1, i + 2, i + 3]"
        have sum: "(\<Sum>j\<leftarrow>?js. slot_mset nd (j mod 4)) = ?slots"
          using rot_slots [of nd i] by (simp add: ac_simps)
        have sub2: "A + value_mset nd + (\<Sum>j\<leftarrow>?js. slot_mset nd (j mod 4)) \<subseteq># Eall"
          using sub unfolding sum ents by (simp add: ac_simps)
        have "\<exists>s2. VisitChildren v nd path ?js l r b t s1 = Inr s2
                \<and> I s2 (A + value_mset nd + (\<Sum>j\<leftarrow>?js. slot_mset nd (j mod 4)))"
          by (rule VisitChildren_rule [where I = I and A = "A + value_mset nd", OF _ ok I1 sub2])
            (rule kids)
        then obtain s2 where s2: "VisitChildren v nd path ?js l r b t s1 = Inr s2"
          and I2: "I s2 (A + value_mset nd + (\<Sum>j\<leftarrow>?js. slot_mset nd (j mod 4)))"
          by blast
        have "I s2 (A + mset (entities nd))"
          using I2 unfolding sum ents by (simp add: ac_simps)
        moreover have "Visit v (Some nd) path l r b t s = Inr s2"
          by (subst Visit.simps)
             (simp only: Let_def False nonleaf s1 s2 i_def [symmetric] if_False option.case sum.case)
        ultimately show ?thesis by blast
      qed
    qed
  qed
qed

section \<open>Nearest neighbour is correct\<close>

lemma isqrt_bounds: "isqrt n * isqrt n \<le> n \<and> n < (isqrt n + 1) * (isqrt n + 1)"
proof (induction n rule: isqrt.induct)
  case (1 n)
  show ?case
  proof (cases "n = 0")
    case True
    then show ?thesis by (simp add: isqrt.simps)
  next
    case False
    define q where "q = isqrt (n div 4)"
    have IH: "q * q \<le> n div 4" "n div 4 < (q + 1) * (q + 1)"
      using "1.IH" [OF False] by (simp_all add: q_def)
    have "4 * (q * q) \<le> 4 * (n div 4)" using IH(1) by simp
    also have "\<dots> \<le> n" by simp
    finally have lo: "(2 * q) * (2 * q) \<le> n" by (simp add: algebra_simps)
    have "n < 4 * (n div 4) + 4" by presburger
    also have "\<dots> \<le> 4 * ((q + 1) * (q + 1))" using IH(2) by simp
    finally have hi: "n < (2 * q + 2) * (2 * q + 2)" by (simp add: algebra_simps)
    show ?thesis
    proof (cases "(2 * q + 1) * (2 * q + 1) \<le> n")
      case True
      then have "isqrt n = 2 * q + 1"
        using False by (simp add: isqrt.simps [of n] Let_def q_def)
      with True hi show ?thesis by (simp add: algebra_simps)
    next
      case small: False
      then have "isqrt n = 2 * q"
        using False by (simp add: isqrt.simps [of n] Let_def q_def)
      with small lo show ?thesis by simp
    qed
  qed
qed

lemma isqrt_upper: "n < (isqrt n + 1) * (isqrt n + 1)"
  using isqrt_bounds [of n] by blast

lemma isqrt_lower: "isqrt n * isqrt n \<le> n"
  using isqrt_bounds [of n] by blast


lemma wrap_id: "- (2 ^ 63) \<le> x \<Longrightarrow> x < 2 ^ 63 \<Longrightarrow> wrap x = x"
  by (simp add: wrap_def)

lemma abs_le_isqrt:
  assumes "a * a < d"
  shows "\<bar>a\<bar> \<le> int (isqrt (nat d))"
proof (rule ccontr)
  let ?s = "int (isqrt (nat d))"
  assume "\<not> \<bar>a\<bar> \<le> ?s"
  then have big: "?s + 1 \<le> \<bar>a\<bar>" by simp
  have "0 \<le> a * a" by simp
  with assms have dpos: "0 < d" by linarith
  have "(?s + 1) * (?s + 1) \<le> \<bar>a\<bar> * \<bar>a\<bar>"
    using big by (intro mult_mono) auto
  moreover have "\<bar>a\<bar> * \<bar>a\<bar> = a * a" by simp
  moreover have "d < (?s + 1) * (?s + 1)"
  proof -
    have "nat d < (isqrt (nat d) + 1) * (isqrt (nat d) + 1)" by (rule isqrt_upper)
    then have "int (nat d) < int ((isqrt (nat d) + 1) * (isqrt (nat d) + 1))"
      by (simp only: of_nat_less_iff)
    then show ?thesis using dpos by (simp add: algebra_simps)
  qed
  ultimately show False using assms by linarith
qed

lemma isqrt_le_2_26: "n \<le> 2 ^ 52 \<Longrightarrow> isqrt n \<le> 2 ^ 26"
proof (rule ccontr)
  assume n: "n \<le> 2 ^ 52" and "\<not> isqrt n \<le> 2 ^ 26"
  then have "(2 ^ 26 + 1) * (2 ^ 26 + 1) \<le> isqrt n * isqrt n" by (intro mult_le_mono) auto
  with isqrt_lower [of n] n show False by simp
qed

lemma Sqrt_bounds:
  assumes "0 \<le> d" and "d < 2 ^ 53"
  shows "int (isqrt (nat d)) \<le> Sqrt d" and "Sqrt d \<le> int (isqrt (nat d)) + 1"
proof -
  have "nat d < 2 ^ 53" using assms by (simp add: nat_less_iff)
  then have "round53 (nat d) = nat d" by (simp add: round53_def)
  then show "int (isqrt (nat d)) \<le> Sqrt d" and "Sqrt d \<le> int (isqrt (nat d)) + 1"
    using assms(1) by (simp_all add: Sqrt_def Let_def)
qed

lemma square_le_2_50:
  fixes a :: int
  assumes "\<bar>a\<bar> \<le> 2 ^ 25"
  shows "a * a \<le> 2 ^ 50" and "- (2 ^ 63) \<le> a * a"
proof -
  have "(- (2 ^ 63) :: int) \<le> 0" by simp
  also have "0 \<le> a * a" by simp
  finally show "- (2 ^ 63) \<le> a * a" .
  have "\<bar>a\<bar> * \<bar>a\<bar> \<le> 2 ^ 25 * 2 ^ 25" using assms by (intro mult_mono) auto
  then show "a * a \<le> 2 ^ 50" by simp
qed

lemma DistanceSquared_small:
  assumes "small x" and "small p"
  shows "DistanceSquared x p = (fst x - fst p) * (fst x - fst p) + (snd x - snd p) * (snd x - snd p)"
    and "0 \<le> DistanceSquared x p" and "DistanceSquared x p \<le> 2 ^ 51"
proof -
  let ?a = "fst x - fst p" and ?b = "snd x - snd p"
  have ab: "\<bar>?a\<bar> \<le> 2 ^ 25" "\<bar>?b\<bar> \<le> 2 ^ 25" using assms by (auto simp: small_def)
  note sa = square_le_2_50 [OF ab(1)] and sb = square_le_2_50 [OF ab(2)]
  have wa: "wrap ?a = ?a" and wb: "wrap ?b = ?b" using ab by (auto intro!: wrap_id)
  have waa: "wrap (?a * ?a) = ?a * ?a"
    using sa by (intro wrap_id; simp)
  have wbb: "wrap (?b * ?b) = ?b * ?b"
    using sb by (intro wrap_id; simp)
  have nn: "0 \<le> ?a * ?a" "0 \<le> ?b * ?b" by simp_all
  have nns: "0 \<le> ?a * ?a + ?b * ?b" by (intro add_nonneg_nonneg) simp_all
  have "(- (2 ^ 63) :: int) \<le> 0" by simp
  also note nns
  finally have lo: "- (2 ^ 63) \<le> ?a * ?a + ?b * ?b" .
  have ws: "wrap (?a * ?a + ?b * ?b) = ?a * ?a + ?b * ?b"
    by (rule wrap_id [OF lo]) (use sa sb in simp)
  show eq: "DistanceSquared x p = ?a * ?a + ?b * ?b"
    by (simp add: DistanceSquared_def Let_def wa wb waa wbb ws)
  show "0 \<le> DistanceSquared x p" "DistanceSquared x p \<le> 2 ^ 51"
    unfolding eq using sa sb nns by simp_all
qed

lemma square_around_covers:
  assumes sx: "small x" and sp: "small p" and se: "small e"
    and lt: "DistanceSquared x p < DistanceSquared e p"
  shows "bound_within (square_around p (Sqrt (DistanceSquared e p))) x"
proof -
  let ?d = "DistanceSquared e p"
  let ?a = "fst x - fst p" and ?b = "snd x - snd p"
  note de = DistanceSquared_small [OF se sp]
  have dx: "?a * ?a + ?b * ?b < ?d"
    using lt DistanceSquared_small(1) [OF sx sp] by simp
  have "0 \<le> ?a * ?a" "0 \<le> ?b * ?b" by simp_all
  with dx have "?a * ?a < ?d" "?b * ?b < ?d" by linarith+
  then have ab: "\<bar>?a\<bar> \<le> int (isqrt (nat ?d))" "\<bar>?b\<bar> \<le> int (isqrt (nat ?d))"
    by (simp_all add: abs_le_isqrt)
  have d53: "?d < 2 ^ 53" using de(3) by simp
  note sb = Sqrt_bounds [OF de(2) d53]
  have "nat ?d \<le> 2 ^ 52" using de(3) by (simp add: nat_le_iff)
  then have "isqrt (nat ?d) \<le> 2 ^ 26" by (rule isqrt_le_2_26)
  then have "int (isqrt (nat ?d)) \<le> 2 ^ 26" by (simp add: of_nat_le_iff [symmetric] del: of_nat_le_iff)
  with sb have r: "0 \<le> Sqrt ?d" "Sqrt ?d \<le> 2 ^ 26 + 1" by simp_all
  have p: "\<bar>fst p\<bar> \<le> 2 ^ 24" "\<bar>snd p\<bar> \<le> 2 ^ 24" using sp by (simp_all add: small_def)
  have w: "wrap (fst p - Sqrt ?d) = fst p - Sqrt ?d" "wrap (fst p + Sqrt ?d) = fst p + Sqrt ?d"
    "wrap (snd p - Sqrt ?d) = snd p - Sqrt ?d" "wrap (snd p + Sqrt ?d) = snd p + Sqrt ?d"
    using p r by (auto intro!: wrap_id)
  show ?thesis
    using ab sb(1) by (simp add: bound_within_def within_def square_around_def w abs_le_iff)
qed

lemma find_visit:
  assumes sp: "small p" and sE: "\<forall>x\<in>#Eall. small (Point x)"
    and I: "find_inv p f Eall s A" and v: "Value n = Some e" and sub: "A + {#e#} \<subseteq># Eall"
  shows "\<exists>s1. v_Visit findV path n s = Inr s1 \<and> find_inv p f Eall s1 (A + {#e#})"
proof -
  have eE: "e \<in># Eall" using sub by (meson mset_subset_eqD union_single_eq_member subset_mset.dual_order.trans mset_subset_eq_add_right)
  let ?d = "DistanceSquared (Point e) p"
  show ?thesis
  proof (cases "rejected f e")
    case True
    then show ?thesis
      using I v by (simp add: findV_def findVisitor_Visit_def find_inv_def)
  next
    case nr: False
    show ?thesis
    proof (cases "?d < f_minDistSquared s")
      case True
      let ?s1 = "s\<lparr>f_minDistSquared := ?d, f_closest := Some (path, n),
                    f_closestBound := square_around p (Sqrt ?d)\<rparr>"
      have run: "v_Visit findV path n s = Inr ?s1"
        using I v nr True by (simp add: findV_def findVisitor_Visit_def find_inv_def Let_def)
      have "find_inv p f Eall ?s1 (A + {#e#})"
        unfolding find_inv_def
      proof (intro conjI)
        show "\<forall>x\<in>#Eall. DistanceSquared (Point x) p < f_minDistSquared ?s1 \<longrightarrow>
             bound_within (f_closestBound ?s1) (Point x)"
          using square_around_covers [OF _ sp, of _ "Point e"] sE eE by simp
        show "\<forall>x\<in>#A + {#e#}. rejected f x \<or> f_minDistSquared ?s1 \<le> DistanceSquared (Point x) p"
          using I True by (fastforce simp: find_inv_def)
        show "case f_closest ?s1 of None \<Rightarrow> f_minDistSquared ?s1 = MaxOf
          | Some (path, n) \<Rightarrow> \<exists>e. Value n = Some e \<and> e \<in># Eall \<and> \<not> rejected f e
                \<and> DistanceSquared (Point e) p = f_minDistSquared ?s1"
          using v eE nr by simp
      qed (use I True in \<open>simp_all add: find_inv_def\<close>)
      with run show ?thesis by blast
    next
      case False
      then show ?thesis
        using I v nr by (simp add: findV_def findVisitor_Visit_def find_inv_def Let_def)
    qed
  qed
qed

lemma find_prune:
  assumes I: "find_inv p f Eall s A" and sub: "A + B \<subseteq># Eall"
    and cell: "\<forall>e\<in>#B. within l r b t (Point e)"
    and pr: "l > fst (Max_b (v_Bound findV s)) \<or> r < fst (Min_b (v_Bound findV s)) \<or>
            b > snd (Max_b (v_Bound findV s)) \<or> t < snd (Min_b (v_Bound findV s))"
  shows "find_inv p f Eall s (A + B)"
proof -
  have "rejected f e \<or> f_minDistSquared s \<le> DistanceSquared (Point e) p" if eB: "e \<in># B" for e
  proof (rule ccontr)
    assume "\<not> ?thesis"
    then have lt: "DistanceSquared (Point e) p < f_minDistSquared s" by simp
    have "e \<in># Eall" using sub eB by (meson mset_subset_eqD union_iff)
    with I lt have "bound_within (f_closestBound s) (Point e)" by (simp add: find_inv_def)
    moreover have "within l r b t (Point e)" using cell eB by blast
    ultimately show False using pr by (auto simp: bound_within_def within_def findV_def)
  qed
  then show ?thesis using I by (auto simp: find_inv_def)
qed

lemma find_traversal:
  assumes sp: "small p" and sE: "\<forall>x\<in>#mset (entities nd). small (Point x)"
    and "cells_ok nd l r b t" and "find_inv p f (mset (entities nd)) s {#}"
  shows "\<exists>s1. Visit findV (Some nd) path l r b t s = Inr s1
           \<and> find_inv p f (mset (entities nd)) s1 (mset (entities nd))"
proof -
  have "visit_ok findV (find_inv p f (mset (entities nd))) (mset (entities nd)) nd"
    by (rule Visit_rule) (rule find_visit [OF sp sE], assumption+, erule (3) find_prune)
  from visit_okD [OF this assms(3) assms(4)] show ?thesis by simp
qed

section \<open>The cell invariant holds in every run\<close>

lemma all_less_4: "(\<forall>k<4. P k) = (P (0::nat) \<and> P 1 \<and> P 2 \<and> P 3)"
proof -
  have "k < 4 \<Longrightarrow> k = 0 \<or> k = 1 \<or> k = 2 \<or> k = 3" for k :: nat by arith
  then show ?thesis by auto
qed

lemma cells_ok_iff:
  "cells_ok nd l r b t =
     ((\<forall>e\<in>set (entities nd). within l r b t (Point e)) \<and>
      (\<forall>k<4. \<forall>c. Children nd k = Some c \<longrightarrow>
         (case subcell k l r b t of (l1, r1, b1, t1) \<Rightarrow> cells_ok c l1 r1 b1 t1)))"
  by (cases nd) (simp add: all_less_4 list_all_iff split: option.splits)

lemma Children_set_Children:
  "i < 4 \<Longrightarrow> k < 4 \<Longrightarrow> Children (set_Children n i x) k = (if k = i then x else Children n k)"
  by (cases n) auto

lemma Value_set_Children: "Value (set_Children n i x) = Value n"
  by (cases n) simp



lemma slot_mset_opt: "slot_mset n k = opt_mset (Children n k)"
  by (simp add: slot_mset_def opt_mset_def)

lemma slot_mset_set_Children:
  "i < 4 \<Longrightarrow> k < 4 \<Longrightarrow> slot_mset (set_Children n i x) k = (if k = i then opt_mset x else slot_mset n k)"
  by (simp add: slot_mset_opt Children_set_Children)

lemma value_mset_set_Children: "value_mset (set_Children n i x) = value_mset n"
  by (simp add: value_mset_def Value_set_Children)

lemma mset_entities_set_Children:
  assumes "i < 4"
  shows "mset (entities (set_Children n i x)) + slot_mset n i = mset (entities n) + opt_mset x"
proof -
  have "i = 0 \<or> i = 1 \<or> i = 2 \<or> i = 3" using assms by arith
  then show ?thesis
    by (auto simp: mset_entities slot_mset_set_Children value_mset_set_Children)
qed


lemma add_quadrant_props:
  assumes "add_quadrant pt l r b t = (i, l1, r1, b1, t1)"
  shows "i < 4" and "subcell i l r b t = (l1, r1, b1, t1)"
    and "within l r b t pt \<Longrightarrow> within l1 r1 b1 t1 pt"
  using assms
  by (auto simp: add_quadrant_def subcell_def within_def Let_def split: if_splits)

lemma cells_ok_leaf: "within l r b t (Point p) \<Longrightarrow> cells_ok (leaf p) l r b t"
  by (simp add: leaf_def)

lemma entities_leaf: "entities (leaf p) = [p]"
  by (simp add: leaf_def)

lemma child_entities_subset:
  assumes "Children n i = Some c" and "i < 4"
  shows "set (entities c) \<subseteq> set (entities n)"
proof -
  have "i = 0 \<or> i = 1 \<or> i = 2 \<or> i = 3" using assms(2) by arith
  then have "mset (entities c) \<subseteq># mset (entities n)"
    using slot_mset_Some [OF assms(1)] by (auto simp: mset_entities)
  then have "set_mset (mset (entities c)) \<subseteq> set_mset (mset (entities n))"
    by (rule set_mset_mono)
  then show ?thesis by simp
qed

lemma entities_set_Children_subset:
  assumes i: "i < 4"
  shows "set (entities (set_Children n i x)) \<subseteq> set (entities n) \<union> set_mset (opt_mset x)"
proof -
  have "mset (entities (set_Children n i x)) \<subseteq># mset (entities (set_Children n i x)) + slot_mset n i"
    by simp
  then have "mset (entities (set_Children n i x)) \<subseteq># mset (entities n) + opt_mset x"
    by (simp only: mset_entities_set_Children [OF i])
  then have "set_mset (mset (entities (set_Children n i x))) \<subseteq> set_mset (mset (entities n) + opt_mset x)"
    by (rule set_mset_mono)
  then show ?thesis by simp
qed

lemma cells_ok_set_Children:
  assumes ok: "cells_ok n l r b t" and i: "i < 4"
    and sc: "subcell i l r b t = (l1, r1, b1, t1)"
    and okc: "cells_ok c l1 r1 b1 t1"
    and ins: "\<forall>e\<in>set (entities c). within l r b t (Point e)"
  shows "cells_ok (set_Children n i (Some c)) l r b t"
proof -
  have "\<forall>e\<in>set (entities (set_Children n i (Some c))). within l r b t (Point e)"
    using entities_set_Children_subset [OF i, of n "Some c"] ok ins
    by (auto simp: opt_mset_def cells_ok_iff [of n])
  moreover have "\<forall>k<4. \<forall>c1. Children (set_Children n i (Some c)) k = Some c1 \<longrightarrow>
         (case subcell k l r b t of (l1, r1, b1, t1) \<Rightarrow> cells_ok c1 l1 r1 b1 t1)"
    using ok i sc okc by (auto simp: Children_set_Children cells_ok_iff [of n])
  ultimately show ?thesis by (subst cells_ok_iff) blast
qed

lemma cells_ok_add:
  "cells_ok n l r b t \<Longrightarrow> within l r b t pt \<Longrightarrow> pt = Point p \<Longrightarrow>
     cells_ok (add n p pt l r b t) l r b t
     \<and> mset (entities (add n p pt l r b t)) = mset (entities n) + {#p#}"
proof (induction n p pt l r b t rule: add.induct)
  case (1 n p pt left right bottom top_y)
  obtain i l1 r1 b1 t1 where aq: "add_quadrant pt left right bottom top_y = (i, l1, r1, b1, t1)"
    by (metis prod_cases5)
  note qp = add_quadrant_props [OF aq]
  have w1: "within l1 r1 b1 t1 (Point p)" using qp(3) "1.prems" by simp
  show ?case
  proof (cases "Children n i")
    case None
    have res: "add n p pt left right bottom top_y = set_Children n i (Some (leaf p))"
      using aq None by (simp add: add.simps [of n])
    have "cells_ok (set_Children n i (Some (leaf p))) left right bottom top_y"
      using "1.prems"(1) qp(1) qp(2) cells_ok_leaf [OF w1]
      by (rule cells_ok_set_Children) (use "1.prems" in \<open>simp add: entities_leaf\<close>)
    moreover have "mset (entities (set_Children n i (Some (leaf p)))) = mset (entities n) + {#p#}"
      using mset_entities_set_Children [OF qp(1), of n "Some (leaf p)"] None
      by (simp add: slot_mset_opt opt_mset_def entities_leaf)
    ultimately show ?thesis using res by simp
  next
    case (Some c)
    have res: "add n p pt left right bottom top_y
                 = set_Children n i (Some (add c p pt l1 r1 b1 t1))"
      using aq Some by (simp add: add.simps [of n])
    have okc: "cells_ok c l1 r1 b1 t1"
      using "1.prems"(1) Some qp(1) qp(2) by (rule cells_ok_child)
    have IH: "cells_ok (add c p pt l1 r1 b1 t1) l1 r1 b1 t1
              \<and> mset (entities (add c p pt l1 r1 b1 t1)) = mset (entities c) + {#p#}"
      using "1.IH" [of i "(l1, r1, b1, t1)" l1 "(r1, b1, t1)" r1 "(b1, t1)" b1 t1 c]
        aq Some okc w1 "1.prems"(3) by simp
    have cin: "\<forall>e\<in>set (entities c). within left right bottom top_y (Point e)"
      using child_entities_subset [OF Some qp(1)] "1.prems"(1) by (auto simp: cells_ok_iff [of n])
    have "set_mset (mset (entities (add c p pt l1 r1 b1 t1))) = set_mset (mset (entities c) + {#p#})"
      using IH by simp
    then have "set (entities (add c p pt l1 r1 b1 t1)) = set (entities c) \<union> {p}"
      by simp
    then have ins: "\<forall>e\<in>set (entities (add c p pt l1 r1 b1 t1)). within left right bottom top_y (Point e)"
      using cin "1.prems" by auto
    have "cells_ok (set_Children n i (Some (add c p pt l1 r1 b1 t1))) left right bottom top_y"
      using "1.prems"(1) qp(1) qp(2) _ ins by (rule cells_ok_set_Children) (use IH in simp)
    moreover have "mset (entities (set_Children n i (Some (add c p pt l1 r1 b1 t1))))
                   = mset (entities n) + {#p#}"
      using mset_entities_set_Children [OF qp(1), of n "Some (add c p pt l1 r1 b1 t1)"] Some IH
      by (simp add: slot_mset_opt opt_mset_def)
    ultimately show ?thesis using res by simp
  qed
qed










lemma Contains_within:
  "Contains u pt = within (fst (Min_b u)) (fst (Max_b u)) (snd (Min_b u)) (snd (Max_b u)) pt"
  by (auto simp: Contains_def within_def)


lemma bound_Add: "bound (snd (Add q p)) = bound q"
  by (simp add: Add_def split: option.splits)




lemma find_init:
  assumes "cells_ok nd (fst (Min_b (bound q))) (fst (Max_b (bound q)))
             (snd (Min_b (bound q))) (snd (Max_b (bound q)))"
  shows "find_inv p f (mset (entities nd)) (findVisitor_init q p f) {#}"
  using assms cells_ok_entities
  by (auto simp: find_inv_def findVisitor_init_def bound_within_def)

lemma small_below_MaxOf: "small x \<Longrightarrow> small p \<Longrightarrow> DistanceSquared x p < MaxOf"
  using DistanceSquared_small(3) [of x p] by (simp add: MaxOf_def)










section \<open>K nearest with k = 0\<close>

text \<open>
  Claim C4 at a failing input: with \<open>k = 0\<close> on an index holding one entity no list is
  returned at all; the call ends in the index-out-of-range panic.
\<close>

theorem KNearest_zero_returns_no_list:
  "KNearest ex_A_only (5, 5) 0 [] = Inl IndexOutOfRange"
  by (simp add: KNearest_def KNearestMatching_def Visit_root_def nearestV_def
      nearestVisitor_init_def nearestVisitor_Visit_def rejected_def DistanceSquared_def
      MaxOf_def Pop_def wrap_def Visit.simps ex_A_only_def ex_defs)

section \<open>K nearest for k of at least one\<close>

text \<open>
  With \<open>k \<ge> 1\<close> the k-nearest query returns without a panic, at most \<open>k\<close> entities,
  in non-decreasing order of the squared distance the code computes; without a maximum
  radius and with \<open>k\<close> at least the number of stored entities (all at a computed squared
  distance below \<^verbatim>\<open>MaxOf\<close>) it returns every stored entity that passes the filter.
\<close>

lemma length_Push: "length (Push h e d) = Suc (length h)"
  by (induction h) auto

lemma set_Push: "set (Push h e d) = insert (e, d) (set h)"
  by (induction h) auto

lemma mset_Push: "mset (Push h e d) = add_mset (e, d) (mset h)"
  by (induction h) auto

lemma sorted_Push:
  "sorted_wrt (\<lambda>x y. snd y \<le> snd x) h \<Longrightarrow> sorted_wrt (\<lambda>x y. snd y \<le> snd x) (Push h e d)"
  by (induction h) (auto simp: set_Push)

lemma repack_all: "repack (length h) h = Inr (rev (map fst h))"
  by (induction h) (simp_all add: Pop_def)

lemma knn_visit:
  assumes k: "1 \<le> k" and I: "knn_inv p f k s" and v: "Value n = Some e"
  shows "\<exists>s1. v_Visit nearestV path n s = Inr s1 \<and> knn_inv p f k s1"
proof -
  let ?d = "DistanceSquared (Point e) p"
  let ?h1 = "Push (n_maxHeap s) e ?d"
  have h1: "length ?h1 = Suc (length (n_maxHeap s))"
    "sorted_wrt (\<lambda>x y. snd y \<le> snd x) ?h1"
    "list_all (\<lambda>x. snd x = DistanceSquared (Point (fst x)) p) ?h1"
    using I by (auto simp: knn_inv_def length_Push sorted_Push set_Push list_all_iff)
  show ?thesis
  proof (cases "rejected f e \<or> \<not> ?d < n_maxDistSquared s")
    case True
    then have "v_Visit nearestV path n s = Inr s"
      using I v by (auto simp: nearestV_def nearestVisitor_Visit_def knn_inv_def Let_def)
    then show ?thesis using I by simp
  next
    case False
    show ?thesis
    proof (cases "length ?h1 > k")
      case fits: False
      have "v_Visit nearestV path n s = Inr (s\<lparr>n_maxHeap := ?h1\<rparr>)"
        using I v False fits by (simp add: nearestV_def nearestVisitor_Visit_def knn_inv_def Let_def)
      moreover have "knn_inv p f k (s\<lparr>n_maxHeap := ?h1\<rparr>)"
        using I h1 fits by (simp add: knn_inv_def)
      ultimately show ?thesis by blast
    next
      case over: True
      then have len: "length ?h1 = Suc k" using h1(1) I by (simp add: knn_inv_def)
      then obtain x h2 where xh: "?h1 = x # h2" by (cases ?h1) auto
      with len k obtain y h3 where yh: "h2 = y # h3" by (cases h2) auto
      let ?s1 = "s\<lparr>n_maxHeap := h2, n_maxDistSquared := snd y,
                   n_closestBound := square_around p (Sqrt (snd y))\<rparr>"
      have "v_Visit nearestV path n s = Inr ?s1"
        using I v False over xh yh
        by (simp add: nearestV_def nearestVisitor_Visit_def knn_inv_def Let_def Pop_def)
      moreover have "knn_inv p f k ?s1"
        using I h1 xh len by (simp add: knn_inv_def)
      ultimately show ?thesis by blast
    qed
  qed
qed

lemma knn_traversal:
  assumes k: "1 \<le> k" and ok: "cells_ok nd l r b t" and I: "knn_inv p f k s"
  shows "\<exists>s1. Visit nearestV (Some nd) path l r b t s = Inr s1 \<and> knn_inv p f k s1"
proof -
  have "visit_ok nearestV (\<lambda>s A. knn_inv p f k s) (mset (entities nd)) nd"
    by (rule Visit_rule) (use k in \<open>auto intro: knn_visit\<close>)
  from visit_okD [OF this ok, of s "{#}" path] I show ?thesis by simp
qed


lemma size_filter_le: "size (filter_mset P A) \<le> size A"
  by (rule size_mset_mono) simp

lemma knn_all_visit:
  assumes k: "size Eall \<le> k"
    and range: "\<forall>e\<in>#Eall. DistanceSquared (Point e) p < MaxOf"
    and I: "knn_all_inv q p f k s A" and v: "Value n = Some e" and sub: "A + {#e#} \<subseteq># Eall"
  shows "\<exists>s1. v_Visit nearestV path n s = Inr s1 \<and> knn_all_inv q p f k s1 (A + {#e#})"
proof (cases "rejected f e")
  case True
  then have "v_Visit nearestV path n s = Inr s"
    using I v by (simp add: nearestV_def nearestVisitor_Visit_def knn_all_inv_def knn_inv_def)
  then show ?thesis using I True by (simp add: knn_all_inv_def)
next
  case False
  let ?d = "DistanceSquared (Point e) p"
  let ?h1 = "Push (n_maxHeap s) e ?d"
  have "e \<in># A + {#e#}" by simp
  with sub have "e \<in># Eall" by (rule mset_subset_eqD)
  then have d: "?d < n_maxDistSquared s" using range I by (simp add: knn_all_inv_def)
  have "size (A + {#e#}) \<le> size Eall" using sub by (rule size_mset_mono)
  moreover have "length (n_maxHeap s) \<le> size A"
  proof -
    have "length (n_maxHeap s) = size (mset (map fst (n_maxHeap s)))" by simp
    also have "\<dots> \<le> size A" using I by (simp only: knn_all_inv_def size_filter_le)
    finally show ?thesis .
  qed
  ultimately have fits: "\<not> length ?h1 > k" using k by (simp add: length_Push)
  have run: "v_Visit nearestV path n s = Inr (s\<lparr>n_maxHeap := ?h1\<rparr>)"
    using I v False d fits
    by (simp add: nearestV_def nearestVisitor_Visit_def knn_all_inv_def knn_inv_def Let_def)
  have "knn_all_inv q p f k (s\<lparr>n_maxHeap := ?h1\<rparr>) (A + {#e#})"
    using I False fits
    by (auto simp: knn_all_inv_def knn_inv_def length_Push sorted_Push set_Push mset_Push
        list_all_iff)
  with run show ?thesis by blast
qed

lemma knn_all_prune:
  assumes uni: "\<forall>e\<in>#Eall. bound_within (bound q) (Point e)"
    and I: "knn_all_inv q p f k s A" and sub: "A + B \<subseteq># Eall"
    and cell: "\<forall>e\<in>#B. within l r b t (Point e)"
    and pr: "l > fst (Max_b (v_Bound nearestV s)) \<or> r < fst (Min_b (v_Bound nearestV s)) \<or>
            b > snd (Max_b (v_Bound nearestV s)) \<or> t < snd (Min_b (v_Bound nearestV s))"
  shows "knn_all_inv q p f k s (A + B)"
proof -
  have "B = {#}"
  proof (rule ccontr)
    assume "B \<noteq> {#}"
    then obtain e where eB: "e \<in># B" by (auto simp: multiset_nonemptyE)
    then have "e \<in># Eall" using sub by (meson mset_subset_eqD union_iff)
    then have "bound_within (bound q) (Point e)" using uni by blast
    moreover have "within l r b t (Point e)" using cell eB by blast
    moreover have "v_Bound nearestV s = bound q" using I by (simp add: knn_all_inv_def nearestV_def)
    ultimately show False using pr by (auto simp: bound_within_def within_def)
  qed
  then show ?thesis using I by simp
qed

lemma knn_all_traversal:
  assumes k: "length (entities nd) \<le> k"
    and range: "\<forall>e\<in>set (entities nd). DistanceSquared (Point e) p < MaxOf"
    and ok: "cells_ok nd (fst (Min_b (bound q))) (fst (Max_b (bound q)))
               (snd (Min_b (bound q))) (snd (Max_b (bound q)))"
    and I: "knn_all_inv q p f k s {#}"
  shows "\<exists>s1. Visit nearestV (Some nd) path (fst (Min_b (bound q))) (fst (Max_b (bound q)))
               (snd (Min_b (bound q))) (snd (Max_b (bound q))) s = Inr s1
           \<and> knn_all_inv q p f k s1 (mset (entities nd))"
proof -
  let ?E = "mset (entities nd)"
  have sz: "size ?E \<le> k" using k by simp
  have rg: "\<forall>e\<in>#?E. DistanceSquared (Point e) p < MaxOf" using range by simp
  have uni: "\<forall>e\<in>#?E. bound_within (bound q) (Point e)"
    using ok cells_ok_entities by (auto simp: bound_within_def)
  have "visit_ok nearestV (knn_all_inv q p f k) ?E nd"
  proof (rule Visit_rule)
    fix path n e s A
    assume "knn_all_inv q p f k s A" "Value n = Some e" "A + {#e#} \<subseteq># ?E"
    with sz rg show "\<exists>s1. v_Visit nearestV path n s = Inr s1 \<and> knn_all_inv q p f k s1 (A + {#e#})"
      by (rule knn_all_visit)
  next
    fix s A B l r b t
    assume "knn_all_inv q p f k s A" "A + B \<subseteq># ?E" "\<forall>e\<in>#B. within l r b t (Point e)"
      "l > fst (Max_b (v_Bound nearestV s)) \<or> r < fst (Min_b (v_Bound nearestV s)) \<or>
       b > snd (Max_b (v_Bound nearestV s)) \<or> t < snd (Min_b (v_Bound nearestV s))"
    with uni show "knn_all_inv q p f k s (A + B)"
      by (rule knn_all_prune)
  qed
  from visit_okD [OF this ok I, of path] show ?thesis by simp
qed

lemma KNearestMatching_shape:
  assumes ok: "cells_ok_root q" and k: "1 \<le> k"
  shows "\<exists>xs. KNearestMatching q p k f md = Inr xs \<and> length xs \<le> k
     \<and> sorted (map (\<lambda>e. DistanceSquared (Point e) p) xs)
     \<and> (md = [] \<longrightarrow> length (stored q) \<le> k \<longrightarrow>
          (\<forall>e\<in>set (stored q). DistanceSquared (Point e) p < MaxOf) \<longrightarrow>
          mset xs = filter_mset (\<lambda>e. \<not> rejected f e) (mset (stored q)))"
proof (cases "root q")
  case None
  then show ?thesis by (simp add: KNearestMatching_def stored_def)
next
  case (Some nd)
  let ?l = "fst (Min_b (bound q))" and ?r = "fst (Max_b (bound q))"
  let ?b = "snd (Min_b (bound q))" and ?t = "snd (Max_b (bound q))"
  let ?s0 = "nearestVisitor_init q p k f md"
  have st: "stored q = entities nd" using Some by (simp add: stored_def)
  have okn: "cells_ok nd ?l ?r ?b ?t" using ok Some by (simp add: cells_ok_root_def)
  have I0: "knn_inv p f k ?s0"
    by (cases md) (simp_all add: knn_inv_def nearestVisitor_init_def Let_def)
  obtain s1 where run: "Visit nearestV (Some nd) [] ?l ?r ?b ?t ?s0 = Inr s1"
    and I1: "knn_inv p f k s1"
    using knn_traversal [OF k okn I0] by blast
  let ?xs = "rev (map fst (n_maxHeap s1))"
  have res: "KNearestMatching q p k f md = Inr ?xs"
    using Some run by (simp add: KNearestMatching_def Visit_root_def repack_all)
  have len: "length ?xs \<le> k" using I1 by (simp add: knn_inv_def)
  have "map (\<lambda>e. DistanceSquared (Point e) p) ?xs = rev (map snd (n_maxHeap s1))"
    using I1 by (simp add: knn_inv_def rev_map list_all_iff)
  moreover have "sorted (rev (map snd (n_maxHeap s1)))"
    using I1 by (simp add: knn_inv_def sorted_wrt_rev sorted_wrt_map)
  ultimately have srt: "sorted (map (\<lambda>e. DistanceSquared (Point e) p) ?xs)" by simp
  have "mset ?xs = filter_mset (\<lambda>e. \<not> rejected f e) (mset (stored q))"
    if md: "md = []" and n: "length (stored q) \<le> k"
      and range: "\<forall>e\<in>set (stored q). DistanceSquared (Point e) p < MaxOf"
  proof -
    have A0: "knn_all_inv q p f k ?s0 {#}"
      using I0 md by (simp add: knn_all_inv_def nearestVisitor_init_def)
    obtain s2 where run2: "Visit nearestV (Some nd) [] ?l ?r ?b ?t ?s0 = Inr s2"
      and I2: "knn_all_inv q p f k s2 (mset (entities nd))"
      using knn_all_traversal [OF _ _ okn A0] n range st by auto
    from run run2 have "s2 = s1" by simp
    with I2 st show ?thesis by (simp add: knn_all_inv_def)
  qed
  with res len srt show ?thesis by blast
qed

section \<open>The range query over the universe returns the stored entities\<close>

text \<open>
  On every index that satisfies the cell invariant, the range query over the universe
  rectangle returns exactly the stored entities that pass the filter; an \<^verbatim>\<open>Add\<close> that
  succeeds stores exactly one more entity.
\<close>

lemma inBound_visit:
  assumes uni: "\<forall>e\<in>#Eall. bound_within u (Point e)"
    and I: "inBound_inv u f s A" and v: "Value n = Some e" and sub: "A + {#e#} \<subseteq># Eall"
  shows "\<exists>s1. v_Visit inBoundV path n s = Inr s1 \<and> inBound_inv u f s1 (A + {#e#})"
proof -
  have "e \<in># A + {#e#}" by simp
  with sub have "e \<in># Eall" by (rule mset_subset_eqD)
  with uni have "bound_within u (Point e)" by blast
  then show ?thesis
    using I v
    by (auto simp: inBoundV_def inBoundVisitor_Visit_def inBound_inv_def bound_within_def within_def)
qed

lemma inBound_prune:
  assumes uni: "\<forall>e\<in>#Eall. bound_within u (Point e)"
    and I: "inBound_inv u f s A" and sub: "A + B \<subseteq># Eall"
    and cell: "\<forall>e\<in>#B. within l r b t (Point e)"
    and pr: "l > fst (Max_b (v_Bound inBoundV s)) \<or> r < fst (Min_b (v_Bound inBoundV s)) \<or>
            b > snd (Max_b (v_Bound inBoundV s)) \<or> t < snd (Min_b (v_Bound inBoundV s))"
  shows "inBound_inv u f s (A + B)"
proof -
  have "B = {#}"
  proof (rule ccontr)
    assume "B \<noteq> {#}"
    then obtain e where eB: "e \<in># B" by (auto simp: multiset_nonemptyE)
    then have "e \<in># Eall" using sub by (meson mset_subset_eqD union_iff)
    then have "bound_within u (Point e)" using uni by blast
    moreover have "within l r b t (Point e)" using cell eB by blast
    moreover have "v_Bound inBoundV s = u" using I by (simp add: inBound_inv_def inBoundV_def)
    ultimately show False using pr by (auto simp: bound_within_def within_def)
  qed
  then show ?thesis using I by simp
qed

lemma InBoundMatching_universe:
  assumes ok: "cells_ok_root q"
  shows "\<exists>xs. InBoundMatching q (bound q) f = Inr xs
           \<and> mset xs = filter_mset (\<lambda>e. \<not> rejected f e) (mset (stored q))"
proof (cases "root q")
  case None
  then show ?thesis by (simp add: InBoundMatching_def stored_def)
next
  case (Some nd)
  let ?l = "fst (Min_b (bound q))" and ?r = "fst (Max_b (bound q))"
  let ?b = "snd (Min_b (bound q))" and ?t = "snd (Max_b (bound q))"
  let ?E = "mset (entities nd)"
  let ?s0 = "\<lparr>i_bound = bound q, i_pointers = [], i_filter = f\<rparr>"
  have okn: "cells_ok nd ?l ?r ?b ?t" using ok Some by (simp add: cells_ok_root_def)
  have uni: "\<forall>e\<in>#?E. bound_within (bound q) (Point e)"
    using okn cells_ok_entities by (auto simp: bound_within_def)
  have "visit_ok inBoundV (inBound_inv (bound q) f) ?E nd"
  proof (rule Visit_rule)
    fix path n e s A
    assume "inBound_inv (bound q) f s A" "Value n = Some e" "A + {#e#} \<subseteq># ?E"
    with uni show "\<exists>s1. v_Visit inBoundV path n s = Inr s1 \<and> inBound_inv (bound q) f s1 (A + {#e#})"
      by (rule inBound_visit)
  next
    fix s A B l r b t
    assume "inBound_inv (bound q) f s A" "A + B \<subseteq># ?E" "\<forall>e\<in>#B. within l r b t (Point e)"
      "l > fst (Max_b (v_Bound inBoundV s)) \<or> r < fst (Min_b (v_Bound inBoundV s)) \<or>
       b > snd (Max_b (v_Bound inBoundV s)) \<or> t < snd (Min_b (v_Bound inBoundV s))"
    with uni show "inBound_inv (bound q) f s (A + B)"
      by (rule inBound_prune)
  qed
  moreover have "inBound_inv (bound q) f ?s0 {#}" by (simp add: inBound_inv_def)
  ultimately obtain s1 where "Visit inBoundV (Some nd) [] ?l ?r ?b ?t ?s0 = Inr s1"
    and "inBound_inv (bound q) f s1 ?E"
    using visit_okD [OF _ okn, of inBoundV "inBound_inv (bound q) f" ?E ?s0 "{#}" "[]"] by auto
  then show ?thesis
    using Some by (simp add: InBoundMatching_def Visit_root_def stored_def inBound_inv_def)
qed

lemma stored_Add:
  assumes "cells_ok_root q"
  shows "mset (stored (snd (Add q p))) =
           mset (stored q) + (case p of None \<Rightarrow> {#}
              | Some e \<Rightarrow> if Contains (bound q) (Point e) then {#e#} else {#})"
  using assms
  by (auto simp: Add_def stored_def cells_ok_root_def cells_ok_add Contains_within entities_leaf
      split: option.splits)

section \<open>Removal on an index with a root\<close>

text \<open>
  When the root is present and the target and the stored entities have coordinates of
  magnitude at most \<open>2^24\<close>, \<^verbatim>\<open>Remove\<close> with the default matcher returns without a panic,
  reports true exactly when a stored entity has the target's point, and leaves the index
  as it was when it reports false.
\<close>

lemma Remove_nonempty:
  assumes ok: "cells_ok_root q" and nonempty: "root q \<noteq> None"
    and sp: "small (Point p)" and sE: "\<forall>e\<in>set (stored q). small (Point e)"
  shows "\<exists>found q1. Remove q p None = Inr (found, q1)
           \<and> found = (\<exists>e\<in>set (stored q). Equal (Point p) (Point e))
           \<and> (\<not> found \<longrightarrow> q1 = q)"
proof -
  obtain nd where nd: "root q = Some nd" using nonempty by blast
  let ?l = "fst (Min_b (bound q))" and ?r = "fst (Max_b (bound q))"
  let ?b = "snd (Min_b (bound q))" and ?t = "snd (Max_b (bound q))"
  let ?f = "Some (\<lambda>x. Equal (Point p) (Point x))"
  have st: "stored q = entities nd" using nd by (simp add: stored_def)
  have okn: "cells_ok nd ?l ?r ?b ?t" using ok nd by (simp add: cells_ok_root_def)
  have sE1: "\<forall>x\<in>#mset (entities nd). small (Point x)" using sE st by simp
  obtain s1 where run: "Visit findV (Some nd) [] ?l ?r ?b ?t (findVisitor_init q (Point p) ?f) = Inr s1"
    and inv: "find_inv (Point p) ?f (mset (entities nd)) s1 (mset (entities nd))"
    using find_traversal [OF sp sE1 okn find_init [OF okn]] by blast
  have vr: "Visit_root findV q (findVisitor_init q (Point p) ?f) = Inr s1"
    using run nd by (simp add: Visit_root_def)
  have far: "\<forall>e\<in>set (entities nd). rejected ?f e
               \<or> f_minDistSquared s1 \<le> DistanceSquared (Point e) (Point p)"
    using inv by (simp add: find_inv_def)
  show ?thesis
  proof (cases "f_closest s1")
    case None
    then have "f_minDistSquared s1 = MaxOf" using inv by (simp add: find_inv_def)
    moreover have "\<forall>e\<in>set (stored q). DistanceSquared (Point e) (Point p) < MaxOf"
      using sE sp small_below_MaxOf by blast
    ultimately have "\<forall>e\<in>set (stored q). rejected ?f e" using far st by fastforce
    then have "\<not> (\<exists>e\<in>set (stored q). Equal (Point p) (Point e))" by (simp add: rejected_def)
    moreover have "Remove q p None = Inr (False, q)"
      using vr None by (simp add: Remove_def)
    ultimately show ?thesis by auto
  next
    case (Some pn)
    obtain path n where pn: "pn = (path, n)" by (cases pn)
    with Some inv obtain e where "e \<in> set (entities nd)" "\<not> rejected ?f e"
      by (auto simp: find_inv_def)
    then have "\<exists>e\<in>set (stored q). Equal (Point p) (Point e)" using st by (auto simp: rejected_def)
    moreover have "\<exists>q1. Remove q p None = Inr (True, q1)"
      using vr Some pn by (simp add: Remove_def)
    ultimately show ?thesis by auto
  qed
qed

end
